theory Spec2Isabelle
  imports Main "HOL-Library.Sublist"
begin

section \<open>Text, characters and the regular expressions of \<^verbatim>\<open>fix_migrations.py\<close>\<close>

text \<open>
  A Python \<^verbatim>\<open>str\<close> is modelled as a \<^typ>\<open>string\<close>; a \<^typ>\<open>char\<close> stands for the code
  point of the same number (0 to 255). The classes \<^verbatim>\<open>\w\<close> and \<^verbatim>\<open>\s\<close> are the ones
  Python's \<^verbatim>\<open>re\<close> module uses for \<^verbatim>\<open>str\<close> patterns, restricted to these code points.
\<close>

definition is_word :: "char \<Rightarrow> bool" where
  \<comment> \<open>\<^verbatim>\<open>\w\<close>: alphanumeric characters and the underscore\<close>
  "is_word c =
     (let n = (of_char c :: nat)
      in (48 \<le> n \<and> n \<le> 57) \<or> (65 \<le> n \<and> n \<le> 90) \<or> n = 95 \<or> (97 \<le> n \<and> n \<le> 122)
         \<or> n = 170 \<or> n = 178 \<or> n = 179 \<or> n = 181 \<or> n = 185 \<or> n = 186
         \<or> (188 \<le> n \<and> n \<le> 190) \<or> (192 \<le> n \<and> n \<le> 214)
         \<or> (216 \<le> n \<and> n \<le> 246) \<or> (248 \<le> n \<and> n \<le> 255))"

definition is_space :: "char \<Rightarrow> bool" where
  \<comment> \<open>\<^verbatim>\<open>\s\<close>: whitespace\<close>
  "is_space c =
     (let n = (of_char c :: nat)
      in (9 \<le> n \<and> n \<le> 13) \<or> (28 \<le> n \<and> n \<le> 32) \<or> n = 133 \<or> n = 160)"

definition is_table_char :: "char \<Rightarrow> bool" where
  \<comment> \<open>the class \<^verbatim>\<open>[\w.]\<close>\<close>
  "is_table_char c = (is_word c \<or> c = CHR ''.'')"

fun strip_prefix :: "string \<Rightarrow> string \<Rightarrow> string option" where
  \<comment> \<open>a literal piece of a pattern: the text after it, when the text starts with it\<close>
  "strip_prefix [] s = Some s"
| "strip_prefix (p # ps) [] = None"
| "strip_prefix (p # ps) (c # cs) = (if p = c then strip_prefix ps cs else None)"

section \<open>The index fixer\<close>

definition index_match :: "string \<Rightarrow> (string \<times> string) option" where
  \<comment> \<open>\<^verbatim>\<open>CREATE INDEX (?!IF NOT EXISTS)(\w+)\<close> tried at the head of the text: group 1 and
      the text after the match. The group is greedy and nothing follows it, so it is
      the whole run of word characters.\<close>
  "index_match s =
     (case strip_prefix ''CREATE INDEX '' s of
        None \<Rightarrow> None
      | Some r \<Rightarrow>
          if prefix ''IF NOT EXISTS'' r then None
          else if takeWhile is_word r = [] then None
          else Some (takeWhile is_word r, dropWhile is_word r))"

lemma strip_prefix_Some: "strip_prefix p s = Some r \<longleftrightarrow> s = p @ r"
  by (induction p s rule: strip_prefix.induct) auto

lemma index_match_shorter:
  assumes "index_match s = Some (w, rest)"
  shows "length rest < length s"
proof -
  from assms obtain r where r: "s = ''CREATE INDEX '' @ r" and "rest = dropWhile is_word r"
    by (auto simp: index_match_def strip_prefix_Some split: option.splits if_splits)
  then have "length rest \<le> length r"
    by (simp add: length_dropWhile_le)
  with r show ?thesis by simp
qed

function fix_create_index :: "string \<Rightarrow> string" where
  \<comment> \<open>\<^verbatim>\<open>re.sub(pattern, replacement, content)\<close>: the text is scanned from the left; a match is
      replaced and the scan goes on after it, any other character is copied\<close>
  "fix_create_index [] = []"
| "fix_create_index (c # cs) =
     (case index_match (c # cs) of
        Some (w, rest) \<Rightarrow> ''CREATE INDEX IF NOT EXISTS '' @ w @ fix_create_index rest
      | None \<Rightarrow> c # fix_create_index cs)"
  by pat_completeness auto
termination
  by (relation "measure length") (auto dest: index_match_shorter)

subsection \<open>What the substitution does, said without the scan\<close>

text \<open>
  A text is cut into pieces: plain text, and statements \<^verbatim>\<open>CREATE INDEX <identifier>\<close>.
  \<open>scan_pieces\<close> holds when the cut is the one a scan from the left makes: the pattern
  matches at no position of a plain piece, and it matches at each statement, with that
  identifier. \<open>overlap_free\<close> holds of a text in which no occurrence of the pattern begins
  inside the identifier of another occurrence.
\<close>

datatype piece = Plain string | Stmt string

fun source_text :: "piece list \<Rightarrow> string" where
  "source_text [] = []"
| "source_text (Plain t # ps) = t @ source_text ps"
| "source_text (Stmt w # ps) = ''CREATE INDEX '' @ w @ source_text ps"

fun rewritten_text :: "piece list \<Rightarrow> string" where
  "rewritten_text [] = []"
| "rewritten_text (Plain t # ps) = t @ rewritten_text ps"
| "rewritten_text (Stmt w # ps) = ''CREATE INDEX IF NOT EXISTS '' @ w @ rewritten_text ps"

fun no_match_within :: "string \<Rightarrow> string \<Rightarrow> bool" where
  "no_match_within [] s = True"
| "no_match_within (c # t) s = (index_match (c # t @ s) = None \<and> no_match_within t s)"

fun scan_pieces :: "piece list \<Rightarrow> bool" where
  "scan_pieces [] = True"
| "scan_pieces (Plain t # ps) = (no_match_within t (source_text ps) \<and> scan_pieces ps)"
| "scan_pieces (Stmt w # ps) =
     (index_match (''CREATE INDEX '' @ w @ source_text ps) = Some (w, source_text ps)
      \<and> scan_pieces ps)"

fun overlap_free :: "string \<Rightarrow> bool" where
  "overlap_free [] = True"
| "overlap_free (c # cs) =
     ((case index_match (c # cs) of None \<Rightarrow> True | Some (w, rest) \<Rightarrow> no_match_within w rest)
      \<and> overlap_free cs)"

subsection \<open>Properties of the index fixer\<close>

lemma index_match_SomeD:
  assumes "index_match s = Some (w, rest)"
  shows "s = ''CREATE INDEX '' @ w @ rest" and "w \<noteq> []"
    and "w = takeWhile is_word (w @ rest)" and "rest = dropWhile is_word (w @ rest)"
  using assms
  by (auto simp: index_match_def strip_prefix_Some split: option.splits if_splits)

lemma fix_create_index_match:
  assumes "index_match s = Some (w, rest)"
  shows "fix_create_index s = ''CREATE INDEX IF NOT EXISTS '' @ w @ fix_create_index rest"
proof (cases s)
  case Nil
  with assms show ?thesis by (simp add: index_match_def)
next
  case (Cons c cs)
  with assms show ?thesis by simp
qed

lemma fix_create_index_plain:
  "no_match_within t s \<Longrightarrow> fix_create_index (t @ s) = t @ fix_create_index s"
  by (induction t) simp_all

lemma fix_create_index_pieces:
  "scan_pieces ps \<Longrightarrow> fix_create_index (source_text ps) = rewritten_text ps"
proof (induction ps rule: scan_pieces.induct)
  case 1
  then show ?case by simp
next
  case (2 t ps)
  then show ?case by (simp add: fix_create_index_plain)
next
  case (3 w ps)
  then have m: "index_match (''CREATE INDEX '' @ w @ source_text ps) = Some (w, source_text ps)"
    and ih: "fix_create_index (source_text ps) = rewritten_text ps"
    by simp_all
  show ?case
    using fix_create_index_match [OF m] ih by simp
qed

lemma pieces_exist: "\<exists>ps. scan_pieces ps \<and> source_text ps = c"
proof (induction c rule: fix_create_index.induct)
  case 1
  have "scan_pieces [] \<and> source_text [] = []" by simp
  then show ?case by blast
next
  case (2 c cs)
  show ?case
  proof (cases "index_match (c # cs)")
    case None
    from 2(1) [OF None] obtain ps where ps: "scan_pieces ps" "source_text ps = cs" by auto
    with None have "scan_pieces (Plain [c] # ps) \<and> source_text (Plain [c] # ps) = c # cs"
      by simp
    then show ?thesis by blast
  next
    case (Some a)
    obtain w rest where a: "a = (w, rest)" by (cases a)
    with Some have m: "index_match (c # cs) = Some (w, rest)" by simp
    from 2(2) [OF m refl] obtain ps where ps: "scan_pieces ps" "source_text ps = rest" by auto
    from index_match_SomeD(1) [OF m] have e: "c # cs = ''CREATE INDEX '' @ w @ rest" .
    have "scan_pieces (Stmt w # ps) \<and> source_text (Stmt w # ps) = c # cs"
      using ps m e by simp
    then show ?thesis by blast
  qed
qed

lemma index_match_None_iff:
  "index_match s = None \<longleftrightarrow>
     \<not> (\<exists>r. s = ''CREATE INDEX '' @ r \<and> \<not> prefix ''IF NOT EXISTS'' r \<and> r \<noteq> [] \<and> is_word (hd r))"
  by (auto simp: index_match_def strip_prefix_Some takeWhile_eq_Nil_iff split: option.splits)

lemma index_match_head: "x \<noteq> CHR ''C'' \<Longrightarrow> index_match (x # s) = None"
  by (simp add: index_match_def)

lemma index_match_after_C:
  assumes p: "p \<noteq> []" and m: "index_match (p @ CHR ''C'' # d1) = None"
  shows "index_match (p @ CHR ''C'' # d2) = None"
proof (rule ccontr)
  assume "index_match (p @ CHR ''C'' # d2) \<noteq> None"
  then obtain r2 where e: "p @ CHR ''C'' # d2 = ''CREATE INDEX '' @ r2"
    and l: "\<not> prefix ''IF NOT EXISTS'' r2" and n: "r2 \<noteq> []" and w: "is_word (hd r2)"
    by (auto simp: index_match_None_iff)
  from e obtain us where
    "p = ''CREATE INDEX '' @ us \<and> us @ CHR ''C'' # d2 = r2
     \<or> p @ us = ''CREATE INDEX '' \<and> CHR ''C'' # d2 = us @ r2"
    unfolding append_eq_append_conv2 by blast
  then have "\<exists>vs. p = ''CREATE INDEX '' @ vs \<and> r2 = vs @ CHR ''C'' # d2"
  proof
    assume "p = ''CREATE INDEX '' @ us \<and> us @ CHR ''C'' # d2 = r2"
    then show ?thesis by blast
  next
    assume a: "p @ us = ''CREATE INDEX '' \<and> CHR ''C'' # d2 = us @ r2"
    show ?thesis
    proof (cases us)
      case Nil
      with a show ?thesis by simp
    next
      case (Cons u us')
      with a have "u = CHR ''C''" by simp
      with a Cons have "tl (p @ CHR ''C'' # us') = tl ''CREATE INDEX ''" by simp
      with p have "tl p @ CHR ''C'' # us' = ''REATE INDEX ''" by simp
      then have "CHR ''C'' \<in> set ''REATE INDEX ''"
        by (metis in_set_conv_decomp)
      then show ?thesis by simp
    qed
  qed
  then obtain vs where vs: "p = ''CREATE INDEX '' @ vs" "r2 = vs @ CHR ''C'' # d2" by blast
  let ?r1 = "vs @ CHR ''C'' # d1"
  have "\<not> prefix ''IF NOT EXISTS'' ?r1"
  proof
    assume "prefix ''IF NOT EXISTS'' ?r1"
    then have "prefix ''IF NOT EXISTS'' vs
                 \<or> (\<exists>zs. ''IF NOT EXISTS'' = vs @ zs \<and> prefix zs (CHR ''C'' # d1))"
      by (simp add: prefix_append)
    then show False
    proof
      assume "prefix ''IF NOT EXISTS'' vs"
      with l vs show False by (simp add: prefix_append)
    next
      assume "\<exists>zs. ''IF NOT EXISTS'' = vs @ zs \<and> prefix zs (CHR ''C'' # d1)"
      then obtain zs where zs: "''IF NOT EXISTS'' = vs @ zs" "prefix zs (CHR ''C'' # d1)"
        by blast
      show False
      proof (cases zs)
        case Nil
        with zs l vs show False by (simp add: prefix_append)
      next
        case (Cons z zs')
        with zs have "z = CHR ''C''" by simp
        with zs Cons have "CHR ''C'' \<in> set ''IF NOT EXISTS''"
          by (metis in_set_conv_decomp)
        then show False by simp
      qed
    qed
  qed
  moreover have "?r1 \<noteq> []" by simp
  moreover have "is_word (hd ?r1)"
    using w vs by (cases vs) simp_all
  moreover have "p @ CHR ''C'' # d1 = ''CREATE INDEX '' @ ?r1"
    using vs by simp
  ultimately have "index_match (p @ CHR ''C'' # d1) \<noteq> None"
    unfolding index_match_None_iff by blast
  with m show False by contradiction
qed

lemma fix_create_index_upto_C:
  "fix_create_index s =
     takeWhile (\<lambda>c. c \<noteq> CHR ''C'') s @ fix_create_index (dropWhile (\<lambda>c. c \<noteq> CHR ''C'') s)"
proof (induction s)
  case Nil
  then show ?case by simp
next
  case (Cons x s)
  show ?case
  proof (cases "x = CHR ''C''")
    case True
    then show ?thesis by simp
  next
    case False
    with Cons show ?thesis by (simp add: index_match_head)
  qed
qed

lemma fix_create_index_keeps_C:
  "\<exists>d. fix_create_index (CHR ''C'' # s) = CHR ''C'' # d"
  by (cases "index_match (CHR ''C'' # s)") auto

lemma index_match_before_fixed:
  assumes "u \<noteq> []"
  shows "index_match (u @ fix_create_index r) = None \<longleftrightarrow> index_match (u @ r) = None"
proof -
  let ?t = "takeWhile (\<lambda>c. c \<noteq> CHR ''C'') r" and ?d = "dropWhile (\<lambda>c. c \<noteq> CHR ''C'') r"
  have r: "r = ?t @ ?d" by simp
  have f: "fix_create_index r = ?t @ fix_create_index ?d"
    by (rule fix_create_index_upto_C)
  show ?thesis
  proof (cases ?d)
    case Nil
    with f r show ?thesis by simp
  next
    case (Cons x d1)
    then have "x = CHR ''C''"
      by (simp add: dropWhile_eq_Cons_conv)
    with Cons have d: "?d = CHR ''C'' # d1" by simp
    have "?t @ ?d = r" by simp
    then have r': "?t @ CHR ''C'' # d1 = r" unfolding d .
    obtain d2 where d2: "fix_create_index (CHR ''C'' # d1) = CHR ''C'' # d2"
      using fix_create_index_keeps_C by blast
    have 1: "u @ r = (u @ ?t) @ CHR ''C'' # d1"
      using r' by simp
    have 2: "u @ fix_create_index r = (u @ ?t) @ CHR ''C'' # d2"
      using f d d2 by simp
    have "u @ ?t \<noteq> []" using assms by simp
    then show ?thesis
      unfolding 1 2 using index_match_after_C by blast
  qed
qed

lemma no_match_within_fixed:
  "no_match_within u (fix_create_index r) = no_match_within u r"
proof (induction u)
  case Nil
  then show ?case by simp
next
  case (Cons x u)
  have "index_match ((x # u) @ fix_create_index r) = None \<longleftrightarrow> index_match ((x # u) @ r) = None"
    by (rule index_match_before_fixed) simp
  with Cons show ?case by simp
qed

lemma no_match_within_append:
  "no_match_within (a @ b) s = (no_match_within a (b @ s) \<and> no_match_within b s)"
  by (induction a) auto

lemma overlap_free_append: "overlap_free (a @ b) \<Longrightarrow> overlap_free b"
  by (induction a) auto

lemma no_match_in_replacement:
  "no_match_within ''CREATE INDEX IF NOT EXISTS '' s"
  by (simp add: index_match_def)

lemma fixed_has_no_match:
  "overlap_free c \<Longrightarrow> no_match_within (fix_create_index c) []"
proof (induction c rule: fix_create_index.induct)
  case 1
  then show ?case by simp
next
  case (2 c cs)
  show ?case
  proof (cases "index_match (c # cs)")
    case None
    from 2(3) have "overlap_free cs" by simp
    with 2(1) [OF None] have ih: "no_match_within (fix_create_index cs) []" .
    have "index_match ([c] @ fix_create_index cs) = None \<longleftrightarrow> index_match ([c] @ cs) = None"
      by (rule index_match_before_fixed) simp
    with None ih show ?thesis by simp
  next
    case (Some a)
    obtain w rest where a: "a = (w, rest)" by (cases a)
    with Some have m: "index_match (c # cs) = Some (w, rest)" by simp
    from index_match_SomeD(1) [OF m] have e: "c # cs = ''CREATE INDEX '' @ w @ rest" .
    from 2(3) m have nw: "no_match_within w rest" by simp
    from 2(3) e have "overlap_free rest"
      by (metis append.assoc overlap_free_append)
    with 2(2) [OF m refl] have ih: "no_match_within (fix_create_index rest) []" .
    have "no_match_within (''CREATE INDEX IF NOT EXISTS '' @ w @ fix_create_index rest) []"
      unfolding no_match_within_append
      using no_match_in_replacement nw ih by (simp add: no_match_within_fixed)
    with m show ?thesis by simp
  qed
qed

lemma fix_create_index_twice:
  "overlap_free c \<Longrightarrow> fix_create_index (fix_create_index c) = fix_create_index c"
  using fix_create_index_plain [of "fix_create_index c" "[]"] fixed_has_no_match [of c]
  by simp

subsection \<open>Claims about the index fixer\<close>

text \<open>
  Claim C3, as stated: the index fixer rewrites every occurrence of the pattern. It fails
  where two occurrences overlap: in the text below the pattern matches at offset 13, with
  the identifier \<open>x\<close>, and the output nowhere holds \<^verbatim>\<open>CREATE INDEX IF NOT EXISTS x\<close>.
\<close>

theorem index_every_occurrence_counterexample:
  "index_match (drop 13 ''CREATE INDEX CREATE INDEX x'') = Some (''x'', [])
   \<and> fix_create_index ''CREATE INDEX CREATE INDEX x'' = ''CREATE INDEX IF NOT EXISTS CREATE INDEX x''
   \<and> \<not> sublist ''CREATE INDEX IF NOT EXISTS x'' (fix_create_index ''CREATE INDEX CREATE INDEX x'')"
  by (simp add: index_match_def is_word_def sublist_Cons_right)

text \<open>
  Claim C3, amended: every text has a cut into plain pieces and statements that a scan from
  the left makes; the index fixer rewrites each statement of that cut
  \<^verbatim>\<open>CREATE INDEX <identifier>\<close> into \<^verbatim>\<open>CREATE INDEX IF NOT EXISTS <identifier>\<close> and
  keeps the plain pieces as they are; and the line of the example becomes the line the
  spec gives.
\<close>

theorem fix_create_index_rewrites:
  "(\<exists>ps. scan_pieces ps \<and> source_text ps = c)
   \<and> (\<forall>ps. scan_pieces ps \<and> source_text ps = c \<longrightarrow> fix_create_index c = rewritten_text ps)
   \<and> fix_create_index ''CREATE INDEX idx_users_email ON users(email);''
       = ''CREATE INDEX IF NOT EXISTS idx_users_email ON users(email);''"
proof (intro conjI allI impI)
  show "\<exists>ps. scan_pieces ps \<and> source_text ps = c"
    by (rule pieces_exist)
next
  fix ps
  assume "scan_pieces ps \<and> source_text ps = c"
  then show "fix_create_index c = rewritten_text ps"
    using fix_create_index_pieces [of ps] by simp
next
  show "fix_create_index ''CREATE INDEX idx_users_email ON users(email);''
          = ''CREATE INDEX IF NOT EXISTS idx_users_email ON users(email);''"
    by (simp add: index_match_def is_word_def)
qed

theorem fix_create_index_rewrites_witness:
  "scan_pieces [Plain ''-- '', Stmt ''a'', Plain '' ON t(c); CREATE INDEX IF NOT EXISTS b'']
   \<and> fix_create_index ''-- CREATE INDEX a ON t(c); CREATE INDEX IF NOT EXISTS b''
       = ''-- CREATE INDEX IF NOT EXISTS a ON t(c); CREATE INDEX IF NOT EXISTS b''"
proof -
  let ?ps = "[Plain ''-- '', Stmt ''a'', Plain '' ON t(c); CREATE INDEX IF NOT EXISTS b'']"
  have h: "scan_pieces ?ps \<and> source_text ?ps = ''-- CREATE INDEX a ON t(c); CREATE INDEX IF NOT EXISTS b''"
    by (simp add: index_match_def is_word_def)
  from fix_create_index_rewrites [of "''-- CREATE INDEX a ON t(c); CREATE INDEX IF NOT EXISTS b''"]
  have "\<forall>ps. scan_pieces ps \<and> source_text ps = ''-- CREATE INDEX a ON t(c); CREATE INDEX IF NOT EXISTS b''
          \<longrightarrow> fix_create_index ''-- CREATE INDEX a ON t(c); CREATE INDEX IF NOT EXISTS b'' = rewritten_text ps"
    by blast
  with h have "fix_create_index ''-- CREATE INDEX a ON t(c); CREATE INDEX IF NOT EXISTS b'' = rewritten_text ?ps"
    by blast
  with h show ?thesis by simp
qed

text \<open>
  Claim C4, as stated: the index fixer is idempotent on every text. It fails where two
  occurrences of the pattern overlap: the first run rewrites the first one and leaves the
  second, whose \<^verbatim>\<open>CREATE\<close> it took for an identifier, to the second run.
\<close>

theorem index_idempotent_counterexample:
  "fix_create_index (fix_create_index ''CREATE INDEX CREATE INDEX idx'')
     \<noteq> fix_create_index ''CREATE INDEX CREATE INDEX idx''"
  by (simp add: index_match_def is_word_def)

text \<open>
  Claim C4, amended: on every text in which no occurrence of the pattern begins inside the
  identifier of another occurrence, running the index fixer twice gives what running it
  once gives; and the pattern never matches at a statement that already reads
  \<^verbatim>\<open>CREATE INDEX IF NOT EXISTS\<close>.
\<close>

theorem fix_create_index_idempotent:
  "(overlap_free c \<longrightarrow> fix_create_index (fix_create_index c) = fix_create_index c)
   \<and> index_match (''CREATE INDEX IF NOT EXISTS'' @ s) = None"
  by (simp add: fix_create_index_twice index_match_def)

theorem fix_create_index_idempotent_witness:
  "overlap_free ''CREATE INDEX a ON t(c); CREATE INDEX IF NOT EXISTS b ON t(d);''
   \<and> fix_create_index ''CREATE INDEX a ON t(c); CREATE INDEX IF NOT EXISTS b ON t(d);''
       = ''CREATE INDEX IF NOT EXISTS a ON t(c); CREATE INDEX IF NOT EXISTS b ON t(d);''
   \<and> fix_create_index ''CREATE INDEX IF NOT EXISTS a ON t(c); CREATE INDEX IF NOT EXISTS b ON t(d);''
       = ''CREATE INDEX IF NOT EXISTS a ON t(c); CREATE INDEX IF NOT EXISTS b ON t(d);''"
proof -
  let ?c = "''CREATE INDEX a ON t(c); CREATE INDEX IF NOT EXISTS b ON t(d);''"
  have h: "overlap_free ?c"
    by (simp add: index_match_def is_word_def)
  have f: "fix_create_index ?c
             = ''CREATE INDEX IF NOT EXISTS a ON t(c); CREATE INDEX IF NOT EXISTS b ON t(d);''"
    by (simp add: index_match_def is_word_def)
  from fix_create_index_idempotent [of ?c "[]"] h
  have "fix_create_index (fix_create_index ?c) = fix_create_index ?c" by blast
  with h f show ?thesis by simp
qed

section \<open>Lines\<close>

fun split_lines :: "string \<Rightarrow> string list" where
  \<comment> \<open>\<^verbatim>\<open>content.split('\n')\<close>: one more line than there are newlines\<close>
  "split_lines [] = [[]]"
| "split_lines (c # cs) =
     (if c = CHR 0x0A then [] # split_lines cs
      else (case split_lines cs of [] \<Rightarrow> [[c]] | l # ls \<Rightarrow> (c # l) # ls))"

fun join_lines :: "string list \<Rightarrow> string" where
  \<comment> \<open>\<^verbatim>\<open>'\n'.join(fixed_lines)\<close>\<close>
  "join_lines [] = []"
| "join_lines [l] = l"
| "join_lines (l # m # ls) = l @ CHR 0x0A # join_lines (m # ls)"

fun str_contains :: "string \<Rightarrow> string \<Rightarrow> bool" where
  \<comment> \<open>\<^verbatim>\<open>needle in haystack\<close>\<close>
  "str_contains needle [] = (needle = [])"
| "str_contains needle (c # cs) = (prefix needle (c # cs) \<or> str_contains needle cs)"

section \<open>The patterns of the policy and trigger fixers\<close>

definition policy_at :: "string \<Rightarrow> string option" where
  \<comment> \<open>\<^verbatim>\<open>CREATE POLICY\s+"([^"]+)"\<close> tried at the head of the text: group 1. The run of
      whitespace is the whole run, since a quote must follow it; the name is the whole
      run of characters other than the quote, since a quote must follow it.\<close>
  "policy_at s =
     (case strip_prefix ''CREATE POLICY'' s of
        None \<Rightarrow> None
      | Some r \<Rightarrow>
          if takeWhile is_space r = [] then None
          else (case dropWhile is_space r of
                  [] \<Rightarrow> None
                | q # r2 \<Rightarrow>
                    if q = CHR 0x22 \<and> takeWhile (\<lambda>c. c \<noteq> CHR 0x22) r2 \<noteq> []
                       \<and> dropWhile (\<lambda>c. c \<noteq> CHR 0x22) r2 \<noteq> []
                    then Some (takeWhile (\<lambda>c. c \<noteq> CHR 0x22) r2)
                    else None))"

definition trigger_at :: "string \<Rightarrow> string option" where
  \<comment> \<open>\<^verbatim>\<open>CREATE TRIGGER\s+(\w+)\<close> tried at the head of the text: group 1. The run of
      whitespace is the whole run, since a word character must follow it; the group is
      greedy and ends the pattern, so it is the whole run of word characters.\<close>
  "trigger_at s =
     (case strip_prefix ''CREATE TRIGGER'' s of
        None \<Rightarrow> None
      | Some r \<Rightarrow>
          if takeWhile is_space r = [] then None
          else if takeWhile is_word (dropWhile is_space r) = [] then None
          else Some (takeWhile is_word (dropWhile is_space r)))"

definition on_at :: "string \<Rightarrow> string option" where
  \<comment> \<open>\<^verbatim>\<open>ON\s+([\w.]+)\<close> tried at the head of the text: group 1, the whole run of word
      characters and dots after the whole run of whitespace\<close>
  "on_at s =
     (case strip_prefix ''ON'' s of
        None \<Rightarrow> None
      | Some r \<Rightarrow>
          if takeWhile is_space r = [] then None
          else if takeWhile is_table_char (dropWhile is_space r) = [] then None
          else Some (takeWhile is_table_char (dropWhile is_space r)))"

fun re_search :: "(string \<Rightarrow> string option) \<Rightarrow> string \<Rightarrow> string option" where
  \<comment> \<open>\<^verbatim>\<open>re.search(pattern, line)\<close>, then \<^verbatim>\<open>group(1)\<close>: the pattern is tried at each position
      from the left, and the first match wins. None of the three patterns matches the
      empty text.\<close>
  "re_search pat [] = None"
| "re_search pat (c # cs) =
     (case pat (c # cs) of Some g \<Rightarrow> Some g | None \<Rightarrow> re_search pat cs)"

definition re_match_policy :: "string \<Rightarrow> bool" where
  \<comment> \<open>\<^verbatim>\<open>re.match(r'^\s*CREATE POLICY\s+"([^"]+)"', line)\<close>: the leading whitespace is the
      whole run, since \<^verbatim>\<open>C\<close> must follow it\<close>
  "re_match_policy line = (policy_at (dropWhile is_space line) \<noteq> None)"

definition re_match_trigger :: "string \<Rightarrow> bool" where
  \<comment> \<open>\<^verbatim>\<open>re.match(r'^\s*CREATE TRIGGER\s+(\w+)', line)\<close>\<close>
  "re_match_trigger line = (trigger_at (dropWhile is_space line) \<noteq> None)"

section \<open>The policy fixer and the trigger fixer\<close>

fun first_table :: "string list \<Rightarrow> string option" where
  \<comment> \<open>the body of the \<^verbatim>\<open>for j\<close> loop, run over the lines of the window: the table of the
      first line that has an \<^verbatim>\<open>ON <table>\<close>, where the loop breaks\<close>
  "first_table [] = None"
| "first_table (l # ls) =
     (case re_search on_at l of Some table_name \<Rightarrow> Some table_name | None \<Rightarrow> first_table ls)"

definition find_table :: "string list \<Rightarrow> nat \<Rightarrow> string option" where
  \<comment> \<open>\<^verbatim>\<open>for j in range(i, min(i + 5, len(lines)))\<close>: the value of \<^verbatim>\<open>table_name\<close> after it\<close>
  "find_table lines i = first_table (map (\<lambda>j. lines ! j) [i ..< min (i + 5) (length lines)])"

definition policy_drop_text :: "string \<Rightarrow> string" where
  \<comment> \<open>the text looked for in the previous line\<close>
  \<open>policy_drop_text policy_name = ''DROP POLICY IF EXISTS "'' @ policy_name @ ''"''\<close>

definition policy_drop_line :: "string \<Rightarrow> string \<Rightarrow> string" where
  \<open>policy_drop_line policy_name table_name =
     ''DROP POLICY IF EXISTS "'' @ policy_name @ ''" ON '' @ table_name @ '';''\<close>

definition policy_guard :: "string list \<Rightarrow> nat \<Rightarrow> string list" where
  \<comment> \<open>what iteration \<open>i\<close> appends to \<^verbatim>\<open>fixed_lines\<close> before the line itself: the guard line
      or nothing. \<^verbatim>\<open>if table_name:\<close> is false for \<^verbatim>\<open>None\<close> and for the empty text.\<close>
  "policy_guard lines i =
     (if re_match_policy (lines ! i) then
        (case re_search policy_at (lines ! i) of
           None \<Rightarrow> []
         | Some policy_name \<Rightarrow>
             (case find_table lines i of
                None \<Rightarrow> []
              | Some table_name \<Rightarrow>
                  if table_name = [] then []
                  else if 0 < i \<and> str_contains (policy_drop_text policy_name) (lines ! (i - 1))
                  then []
                  else [policy_drop_line policy_name table_name]))
      else [])"

function policy_loop :: "string list \<Rightarrow> nat \<Rightarrow> string list \<Rightarrow> string list" where
  \<comment> \<open>the \<^verbatim>\<open>while i < len(lines)\<close> loop, from the index \<open>i\<close> and the \<^verbatim>\<open>fixed_lines\<close> so far\<close>
  "policy_loop lines i fixed_lines =
     (if i < length lines
      then policy_loop lines (i + 1) (fixed_lines @ policy_guard lines i @ [lines ! i])
      else fixed_lines)"
  by pat_completeness auto
termination
  by (relation "measure (\<lambda>(lines, i, fixed_lines). length lines - i)") auto

definition fix_create_policy :: "string \<Rightarrow> string" where
  "fix_create_policy content = join_lines (policy_loop (split_lines content) 0 [])"

definition trigger_drop_text :: "string \<Rightarrow> string" where
  "trigger_drop_text trigger_name = ''DROP TRIGGER IF EXISTS '' @ trigger_name"

definition trigger_drop_line :: "string \<Rightarrow> string \<Rightarrow> string" where
  "trigger_drop_line trigger_name table_name =
     ''DROP TRIGGER IF EXISTS '' @ trigger_name @ '' ON '' @ table_name @ '';''"

definition trigger_guard :: "string list \<Rightarrow> nat \<Rightarrow> string list" where
  "trigger_guard lines i =
     (if re_match_trigger (lines ! i) then
        (case re_search trigger_at (lines ! i) of
           None \<Rightarrow> []
         | Some trigger_name \<Rightarrow>
             (case find_table lines i of
                None \<Rightarrow> []
              | Some table_name \<Rightarrow>
                  if table_name = [] then []
                  else if 0 < i \<and> str_contains (trigger_drop_text trigger_name) (lines ! (i - 1))
                  then []
                  else [trigger_drop_line trigger_name table_name]))
      else [])"

function trigger_loop :: "string list \<Rightarrow> nat \<Rightarrow> string list \<Rightarrow> string list" where
  "trigger_loop lines i fixed_lines =
     (if i < length lines
      then trigger_loop lines (i + 1) (fixed_lines @ trigger_guard lines i @ [lines ! i])
      else fixed_lines)"
  by pat_completeness auto
termination
  by (relation "measure (\<lambda>(lines, i, fixed_lines). length lines - i)") auto

definition fix_create_trigger :: "string \<Rightarrow> string" where
  "fix_create_trigger content = join_lines (trigger_loop (split_lines content) 0 [])"

declare policy_loop.simps [simp del] trigger_loop.simps [simp del]

subsection \<open>The generic procedure\<close>

text \<open>
  The line scan that section 4.2 of the spec describes and section 4.3 reuses, over any
  statement pattern \<open>name_of\<close> (the name of the statement a line creates, if it creates
  one) and any guard text \<open>drop_text\<close> (the guard up to the name): the table comes from the
  first \<^verbatim>\<open>ON <table>\<close> of the line and the next four, and the guard is left out when the
  line before holds the guard text.
\<close>

definition guard_for ::
  "(string \<Rightarrow> string option) \<Rightarrow> (string \<Rightarrow> string) \<Rightarrow> string option \<Rightarrow> string \<Rightarrow> string list
     \<Rightarrow> string list" where
  "guard_for name_of drop_text prev line window =
     (case name_of line of
        None \<Rightarrow> []
      | Some name \<Rightarrow>
          (case first_table window of
             None \<Rightarrow> []
           | Some table \<Rightarrow>
               if (case prev of None \<Rightarrow> False | Some before \<Rightarrow> str_contains (drop_text name) before)
               then []
               else [drop_text name @ '' ON '' @ table @ '';'']))"

fun guard_scan ::
  "(string \<Rightarrow> string option) \<Rightarrow> (string \<Rightarrow> string) \<Rightarrow> string option \<Rightarrow> string list
     \<Rightarrow> string list" where
  "guard_scan name_of drop_text prev [] = []"
| "guard_scan name_of drop_text prev (line # rest) =
     guard_for name_of drop_text prev line (take 5 (line # rest))
       @ line # guard_scan name_of drop_text (Some line) rest"

definition policy_name :: "string \<Rightarrow> string option" where
  \<comment> \<open>a line that starts, after whitespace, with \<^verbatim>\<open>CREATE POLICY "<name>"\<close>\<close>
  "policy_name line = policy_at (dropWhile is_space line)"

definition trigger_name :: "string \<Rightarrow> string option" where
  \<comment> \<open>a line that starts, after whitespace, with \<^verbatim>\<open>CREATE TRIGGER <name>\<close>\<close>
  "trigger_name line = trigger_at (dropWhile is_space line)"

subsection \<open>The loops are the generic procedure\<close>

lemma split_lines_not_Nil: "split_lines s \<noteq> []"
  by (induction s) (auto split: list.splits)

lemma join_split_lines: "join_lines (split_lines s) = s"
proof (induction s)
  case Nil
  then show ?case by simp
next
  case (Cons c s)
  show ?case
  proof (cases "split_lines s")
    case Nil
    with split_lines_not_Nil show ?thesis by simp
  next
    case (Cons l ls)
    with Cons.IH show ?thesis by (cases ls) auto
  qed
qed

lemma re_search_leading_space:
  assumes "\<And>c s. is_space c \<Longrightarrow> pat (c # s) = None"
  shows "re_search pat line = re_search pat (dropWhile is_space line)"
  using assms by (induction line) simp_all

lemma is_space_not_C: "is_space c \<Longrightarrow> c \<noteq> CHR ''C''"
  by (auto simp: is_space_def)

lemma policy_at_space: "is_space c \<Longrightarrow> policy_at (c # s) = None"
  by (auto simp: policy_at_def dest: is_space_not_C)

lemma trigger_at_space: "is_space c \<Longrightarrow> trigger_at (c # s) = None"
  by (auto simp: trigger_at_def dest: is_space_not_C)

lemma re_search_head: "pat s = Some g \<Longrightarrow> s \<noteq> [] \<Longrightarrow> re_search pat s = Some g"
  by (cases s) simp_all

lemma policy_at_Nil: "policy_at [] = None"
  by (simp add: policy_at_def)

lemma trigger_at_Nil: "trigger_at [] = None"
  by (simp add: trigger_at_def)

lemma re_search_policy_name:
  "re_match_policy line \<Longrightarrow> re_search policy_at line = policy_name line"
proof -
  assume "re_match_policy line"
  then obtain g where g: "policy_at (dropWhile is_space line) = Some g"
    by (auto simp: re_match_policy_def)
  then have "dropWhile is_space line \<noteq> []"
    by (metis policy_at_Nil option.distinct(1))
  with g have "re_search policy_at (dropWhile is_space line) = Some g"
    by (rule re_search_head)
  moreover have "re_search policy_at line = re_search policy_at (dropWhile is_space line)"
    by (rule re_search_leading_space) (rule policy_at_space)
  ultimately show ?thesis using g by (simp add: policy_name_def)
qed

lemma re_search_trigger_name:
  "re_match_trigger line \<Longrightarrow> re_search trigger_at line = trigger_name line"
proof -
  assume "re_match_trigger line"
  then obtain g where g: "trigger_at (dropWhile is_space line) = Some g"
    by (auto simp: re_match_trigger_def)
  then have "dropWhile is_space line \<noteq> []"
    by (metis trigger_at_Nil option.distinct(1))
  with g have "re_search trigger_at (dropWhile is_space line) = Some g"
    by (rule re_search_head)
  moreover have "re_search trigger_at line = re_search trigger_at (dropWhile is_space line)"
    by (rule re_search_leading_space) (rule trigger_at_space)
  ultimately show ?thesis using g by (simp add: trigger_name_def)
qed

lemma on_at_nonempty: "on_at s = Some t \<Longrightarrow> t \<noteq> []"
  by (auto simp: on_at_def split: option.splits if_splits)

lemma re_search_on_nonempty: "re_search on_at s = Some t \<Longrightarrow> t \<noteq> []"
  by (induction s) (auto split: option.splits dest: on_at_nonempty)

lemma first_table_nonempty: "first_table ls = Some t \<Longrightarrow> t \<noteq> []"
  by (induction ls) (auto split: option.splits dest: re_search_on_nonempty)

lemma find_table_window:
  "find_table lines i = first_table (take 5 (drop i lines))"
proof -
  have "map (\<lambda>j. lines ! j) [i ..< min (i + 5) (length lines)] = take 5 (drop i lines)"
    by (rule nth_equalityI) (auto simp: min_def split: if_splits)
  then show ?thesis by (simp add: find_table_def)
qed

lemma policy_guard_generic:
  assumes "i < length lines"
  shows "policy_guard lines i
           = guard_for policy_name policy_drop_text (if 0 < i then Some (lines ! (i - 1)) else None)
               (lines ! i) (take 5 (drop i lines))"
proof (cases "re_match_policy (lines ! i)")
  case True
  then show ?thesis
    by (auto simp: policy_guard_def guard_for_def re_search_policy_name find_table_window
        policy_drop_text_def policy_drop_line_def
        split: option.splits dest: first_table_nonempty)
next
  case False
  then have "policy_name (lines ! i) = None"
    by (simp add: re_match_policy_def policy_name_def)
  with False show ?thesis by (simp add: policy_guard_def guard_for_def)
qed

lemma trigger_guard_generic:
  assumes "i < length lines"
  shows "trigger_guard lines i
           = guard_for trigger_name trigger_drop_text (if 0 < i then Some (lines ! (i - 1)) else None)
               (lines ! i) (take 5 (drop i lines))"
proof (cases "re_match_trigger (lines ! i)")
  case True
  then show ?thesis
    by (auto simp: trigger_guard_def guard_for_def re_search_trigger_name find_table_window
        trigger_drop_text_def trigger_drop_line_def
        split: option.splits dest: first_table_nonempty)
next
  case False
  then have "trigger_name (lines ! i) = None"
    by (simp add: re_match_trigger_def trigger_name_def)
  with False show ?thesis by (simp add: trigger_guard_def guard_for_def)
qed

lemma guard_scan_drop:
  assumes "i < length lines"
  shows "guard_scan name_of drop_text prev (drop i lines)
           = guard_for name_of drop_text prev (lines ! i) (take 5 (drop i lines))
               @ lines ! i # guard_scan name_of drop_text (Some (lines ! i)) (drop (Suc i) lines)"
  using assms by (simp add: Cons_nth_drop_Suc [symmetric])

lemma policy_loop_generic:
  "i \<le> length lines \<Longrightarrow>
   policy_loop lines i fixed_lines
     = fixed_lines @ guard_scan policy_name policy_drop_text
         (if 0 < i then Some (lines ! (i - 1)) else None) (drop i lines)"
proof (induction lines i fixed_lines rule: policy_loop.induct)
  case (1 lines i fixed_lines)
  show ?case
  proof (cases "i < length lines")
    case True
    with 1 show ?thesis
      by (subst policy_loop.simps) (simp add: guard_scan_drop policy_guard_generic)
  next
    case False
    with 1 show ?thesis
      by (subst policy_loop.simps) simp
  qed
qed

lemma trigger_loop_generic:
  "i \<le> length lines \<Longrightarrow>
   trigger_loop lines i fixed_lines
     = fixed_lines @ guard_scan trigger_name trigger_drop_text
         (if 0 < i then Some (lines ! (i - 1)) else None) (drop i lines)"
proof (induction lines i fixed_lines rule: trigger_loop.induct)
  case (1 lines i fixed_lines)
  show ?case
  proof (cases "i < length lines")
    case True
    with 1 show ?thesis
      by (subst trigger_loop.simps) (simp add: guard_scan_drop trigger_guard_generic)
  next
    case False
    with 1 show ?thesis
      by (subst trigger_loop.simps) simp
  qed
qed

lemma fix_create_policy_scan:
  "fix_create_policy c = join_lines (guard_scan policy_name policy_drop_text None (split_lines c))"
  by (simp add: fix_create_policy_def policy_loop_generic)

lemma fix_create_trigger_scan:
  "fix_create_trigger c = join_lines (guard_scan trigger_name trigger_drop_text None (split_lines c))"
  by (simp add: fix_create_trigger_def trigger_loop_generic)

definition policy_emitted :: "string list \<Rightarrow> nat \<Rightarrow> nat \<Rightarrow> string list" where
  \<comment> \<open>what the iterations \<open>a \<le> j < b\<close> of the loop append to \<^verbatim>\<open>fixed_lines\<close>\<close>
  "policy_emitted lines a b = concat (map (\<lambda>j. policy_guard lines j @ [lines ! j]) [a ..< b])"

fun kept_with_guards :: "(string \<Rightarrow> bool) \<Rightarrow> string list \<Rightarrow> string list \<Rightarrow> bool" where
  \<comment> \<open>the output is the original lines, in their order, with lines that satisfy
      \<open>is_guard\<close> put in between\<close>
  "kept_with_guards is_guard [] [] = True"
| "kept_with_guards is_guard (x # xs) [] = False"
| "kept_with_guards is_guard [] (y # ys) = (is_guard y \<and> kept_with_guards is_guard [] ys)"
| "kept_with_guards is_guard (x # xs) (y # ys) =
     ((x = y \<and> kept_with_guards is_guard xs ys)
      \<or> (is_guard y \<and> kept_with_guards is_guard (x # xs) ys))"

definition is_policy_guard :: "string \<Rightarrow> bool" where
  \<comment> \<open>a line \<^verbatim>\<open>DROP POLICY IF EXISTS "<name>" ON <table>;\<close>\<close>
  \<open>is_policy_guard g =
     (case strip_prefix ''DROP POLICY IF EXISTS "'' g of
        None \<Rightarrow> False
      | Some r \<Rightarrow>
          takeWhile (\<lambda>c. c \<noteq> CHR 0x22) r \<noteq> []
          \<and> (case strip_prefix ''" ON '' (dropWhile (\<lambda>c. c \<noteq> CHR 0x22) r) of
                None \<Rightarrow> False
              | Some r2 \<Rightarrow>
                  takeWhile is_table_char r2 \<noteq> [] \<and> dropWhile is_table_char r2 = '';''))\<close>

definition is_trigger_guard :: "string \<Rightarrow> bool" where
  \<comment> \<open>a line \<^verbatim>\<open>DROP TRIGGER IF EXISTS <name> ON <table>;\<close>\<close>
  "is_trigger_guard g =
     (case strip_prefix ''DROP TRIGGER IF EXISTS '' g of
        None \<Rightarrow> False
      | Some r \<Rightarrow>
          takeWhile is_word r \<noteq> []
          \<and> (case strip_prefix '' ON '' (dropWhile is_word r) of
                None \<Rightarrow> False
              | Some r2 \<Rightarrow>
                  takeWhile is_table_char r2 \<noteq> [] \<and> dropWhile is_table_char r2 = '';''))"

fun rerun_stable ::
  "(string \<Rightarrow> string option) \<Rightarrow> (string \<Rightarrow> string) \<Rightarrow> string option \<Rightarrow> string list \<Rightarrow> bool" where
  \<comment> \<open>every line that creates a statement has a table in its window, or the line before
      it holds the guard text already, or its window in the output of the scan (the line
      and the next four lines of the output) has no table\<close>
  "rerun_stable name_of drop_text prev [] = True"
| "rerun_stable name_of drop_text prev (line # rest) =
     ((case name_of line of
         None \<Rightarrow> True
       | Some name \<Rightarrow>
           first_table (take 5 (line # rest)) \<noteq> None
           \<or> (case prev of None \<Rightarrow> False | Some before \<Rightarrow> str_contains (drop_text name) before)
           \<or> first_table (take 5 (line # guard_scan name_of drop_text (Some line) rest)) = None)
      \<and> rerun_stable name_of drop_text (Some line) rest)"

subsection \<open>Lines and newlines\<close>

lemma split_lines_no_newline: "l \<in> set (split_lines s) \<Longrightarrow> CHR 0x0A \<notin> set l"
proof (induction s arbitrary: l)
  case Nil
  then show ?case by simp
next
  case (Cons c s)
  show ?case
  proof (cases "split_lines s")
    case Nil
    with split_lines_not_Nil show ?thesis by simp
  next
    case (Cons m ms)
    have m: "CHR 0x0A \<notin> set m" and ms: "\<And>x. x \<in> set ms \<Longrightarrow> CHR 0x0A \<notin> set x"
      using Cons.IH Cons by simp_all
    show ?thesis
    proof (cases "c = CHR 0x0A")
      case True
      with Cons.prems Cons m ms show ?thesis by auto
    next
      case False
      with Cons.prems Cons m ms show ?thesis by auto
    qed
  qed
qed

lemma split_lines_line: "CHR 0x0A \<notin> set l \<Longrightarrow> split_lines l = [l]"
  by (induction l) auto

lemma split_lines_append:
  "CHR 0x0A \<notin> set l \<Longrightarrow> split_lines (l @ CHR 0x0A # s) = l # split_lines s"
  by (induction l) auto

lemma split_join_lines:
  "ls \<noteq> [] \<Longrightarrow> \<forall>l \<in> set ls. CHR 0x0A \<notin> set l \<Longrightarrow> split_lines (join_lines ls) = ls"
proof (induction ls rule: join_lines.induct)
  case 1
  then show ?case by simp
next
  case (2 l)
  then show ?case by (simp add: split_lines_line)
next
  case (3 l m ls)
  then show ?case by (simp add: split_lines_append)
qed

subsection \<open>What the patterns capture\<close>

lemma policy_at_name:
  assumes "policy_at s = Some p"
  shows "p \<noteq> []" and "CHR 0x22 \<notin> set p" and "set p \<subseteq> set s"
proof -
  from assms obtain r r2 where r: "s = ''CREATE POLICY'' @ r"
    and d: "dropWhile is_space r = CHR 0x22 # r2"
    and p: "p = takeWhile (\<lambda>c. c \<noteq> CHR 0x22) r2" and n: "p \<noteq> []"
    by (auto simp: policy_at_def strip_prefix_Some split: option.splits if_splits list.splits)
  show "p \<noteq> []" by (rule n)
  show "CHR 0x22 \<notin> set p"
    using p by (auto dest: set_takeWhileD)
  have "set p \<subseteq> set r2" using p by (auto dest: set_takeWhileD)
  also have "\<dots> \<subseteq> set (dropWhile is_space r)" using d by auto
  also have "\<dots> \<subseteq> set r" by (rule set_dropWhileD [THEN subsetI])
  also have "\<dots> \<subseteq> set s" using r by auto
  finally show "set p \<subseteq> set s" .
qed

lemma trigger_at_name:
  assumes "trigger_at s = Some n"
  shows "n \<noteq> []" and "\<forall>c \<in> set n. is_word c" and "set n \<subseteq> set s"
proof -
  from assms obtain r where r: "s = ''CREATE TRIGGER'' @ r"
    and n: "n = takeWhile is_word (dropWhile is_space r)" and e: "n \<noteq> []"
    by (auto simp: trigger_at_def strip_prefix_Some split: option.splits if_splits)
  show "n \<noteq> []" by (rule e)
  show "\<forall>c \<in> set n. is_word c" using n by (auto dest: set_takeWhileD)
  have "set n \<subseteq> set (dropWhile is_space r)" using n by (auto dest: set_takeWhileD)
  also have "\<dots> \<subseteq> set r" by (rule set_dropWhileD [THEN subsetI])
  also have "\<dots> \<subseteq> set s" using r by auto
  finally show "set n \<subseteq> set s" .
qed

lemma on_at_table:
  assumes "on_at s = Some t"
  shows "\<forall>c \<in> set t. is_table_char c" and "set t \<subseteq> set s"
proof -
  from assms obtain r where r: "s = ''ON'' @ r"
    and t: "t = takeWhile is_table_char (dropWhile is_space r)"
    by (auto simp: on_at_def strip_prefix_Some split: option.splits if_splits)
  show "\<forall>c \<in> set t. is_table_char c" using t by (auto dest: set_takeWhileD)
  have "set t \<subseteq> set (dropWhile is_space r)" using t by (auto dest: set_takeWhileD)
  also have "\<dots> \<subseteq> set r" by (rule set_dropWhileD [THEN subsetI])
  also have "\<dots> \<subseteq> set s" using r by auto
  finally show "set t \<subseteq> set s" .
qed

lemma re_search_SomeD:
  "re_search pat s = Some g \<Longrightarrow> \<exists>u v. s = u @ v \<and> pat v = Some g"
proof (induction s)
  case Nil
  then show ?case by simp
next
  case (Cons c s)
  show ?case
  proof (cases "pat (c # s)")
    case None
    with Cons obtain u v where "s = u @ v" "pat v = Some g" by auto
    then have "c # s = (c # u) @ v \<and> pat v = Some g" by simp
    then show ?thesis by blast
  next
    case (Some a)
    with Cons.prems have "c # s = [] @ (c # s) \<and> pat (c # s) = Some g" by simp
    then show ?thesis by blast
  qed
qed

lemma re_search_on_table:
  assumes "re_search on_at s = Some t"
  shows "t \<noteq> []" and "\<forall>c \<in> set t. is_table_char c" and "set t \<subseteq> set s"
proof -
  from re_search_SomeD [OF assms] obtain u v where s: "s = u @ v" and v: "on_at v = Some t"
    by blast
  show "t \<noteq> []" using v by (rule on_at_nonempty)
  show "\<forall>c \<in> set t. is_table_char c" using v by (rule on_at_table)
  show "set t \<subseteq> set s" using on_at_table(2) [OF v] s by auto
qed

lemma first_table_SomeD:
  "first_table ls = Some t \<Longrightarrow> \<exists>l \<in> set ls. re_search on_at l = Some t"
  by (induction ls) (auto split: option.splits)

lemma first_table_table:
  assumes "first_table ls = Some t"
  shows "\<forall>c \<in> set t. is_table_char c" and "\<exists>l \<in> set ls. set t \<subseteq> set l"
  using first_table_SomeD [OF assms] re_search_on_table by blast+

lemma policy_name_SomeD:
  assumes "policy_name l = Some p"
  shows "p \<noteq> []" and "CHR 0x22 \<notin> set p" and "set p \<subseteq> set l"
proof -
  from assms have a: "policy_at (dropWhile is_space l) = Some p"
    by (simp add: policy_name_def)
  show "p \<noteq> []" "CHR 0x22 \<notin> set p" using policy_at_name [OF a] by simp_all
  have "set p \<subseteq> set (dropWhile is_space l)" using a by (rule policy_at_name)
  also have "\<dots> \<subseteq> set l" by (rule set_dropWhileD [THEN subsetI])
  finally show "set p \<subseteq> set l" .
qed

lemma trigger_name_SomeD:
  assumes "trigger_name l = Some n"
  shows "n \<noteq> []" and "\<forall>c \<in> set n. is_word c" and "set n \<subseteq> set l"
proof -
  from assms have a: "trigger_at (dropWhile is_space l) = Some n"
    by (simp add: trigger_name_def)
  show "n \<noteq> []" "\<forall>c \<in> set n. is_word c" using trigger_at_name [OF a] by simp_all
  have "set n \<subseteq> set (dropWhile is_space l)" using a by (rule trigger_at_name)
  also have "\<dots> \<subseteq> set l" by (rule set_dropWhileD [THEN subsetI])
  finally show "set n \<subseteq> set l" .
qed

lemma policy_name_drop_line: "policy_name (policy_drop_text p @ r) = None"
  by (simp add: policy_name_def policy_drop_text_def policy_at_def is_space_def)

lemma trigger_name_drop_line: "trigger_name (trigger_drop_text n @ r) = None"
  by (simp add: trigger_name_def trigger_drop_text_def trigger_at_def is_space_def)

lemma str_contains_prefix: "prefix n h \<Longrightarrow> str_contains n h"
  by (cases h) simp_all

lemma str_contains_append: "str_contains n (n @ r)"
  by (rule str_contains_prefix) simp

lemma takeWhile_all_append:
  "\<forall>c \<in> set t. P c \<Longrightarrow> \<not> P x \<Longrightarrow> takeWhile P (t @ x # r) = t"
  by (induction t) auto

lemma dropWhile_all_append:
  "\<forall>c \<in> set t. P c \<Longrightarrow> \<not> P x \<Longrightarrow> dropWhile P (t @ x # r) = x # r"
  by (induction t) auto

lemma is_policy_guard_drop_line:
  assumes "p \<noteq> []" and "CHR 0x22 \<notin> set p" and "t \<noteq> []" and "\<forall>c \<in> set t. is_table_char c"
  shows "is_policy_guard (policy_drop_text p @ '' ON '' @ t @ '';'')"
proof -
  have np: "\<forall>c \<in> set p. c \<noteq> CHR 0x22" using assms(2) by auto
  have semi: "\<not> is_table_char CHR '';''"
    by (simp add: is_table_char_def is_word_def)
  have 1: "takeWhile (\<lambda>c. c \<noteq> CHR 0x22) (p @ CHR 0x22 # '' ON '' @ t @ '';'') = p"
    using np by (rule takeWhile_all_append) simp
  have 2: "dropWhile (\<lambda>c. c \<noteq> CHR 0x22) (p @ CHR 0x22 # '' ON '' @ t @ '';'')
             = CHR 0x22 # '' ON '' @ t @ '';''"
    using np by (rule dropWhile_all_append) simp
  have 3: "takeWhile is_table_char (t @ '';'') = t"
    using takeWhile_all_append [OF assms(4) semi, of "[]"] by simp
  have 4: "dropWhile is_table_char (t @ '';'') = '';''"
    using dropWhile_all_append [OF assms(4) semi, of "[]"] by simp
  show ?thesis
    using 1 2 3 4 assms(1,3)
    by (simp add: is_policy_guard_def policy_drop_text_def)
qed

lemma is_trigger_guard_drop_line:
  assumes "n \<noteq> []" and "\<forall>c \<in> set n. is_word c" and "t \<noteq> []" and "\<forall>c \<in> set t. is_table_char c"
  shows "is_trigger_guard (trigger_drop_text n @ '' ON '' @ t @ '';'')"
proof -
  have semi: "\<not> is_table_char CHR '';''"
    by (simp add: is_table_char_def is_word_def)
  have sp: "\<not> is_word CHR '' ''"
    by (simp add: is_word_def)
  have 1: "takeWhile is_word (n @ '' ON '' @ t @ '';'') = n"
    using takeWhile_all_append [OF assms(2) sp] by simp
  have 2: "dropWhile is_word (n @ '' ON '' @ t @ '';'') = '' ON '' @ t @ '';''"
    using dropWhile_all_append [OF assms(2) sp] by simp
  have 3: "takeWhile is_table_char (t @ '';'') = t"
    using takeWhile_all_append [OF assms(4) semi, of "[]"] by simp
  have 4: "dropWhile is_table_char (t @ '';'') = '';''"
    using dropWhile_all_append [OF assms(4) semi, of "[]"] by simp
  show ?thesis
    using 1 2 3 4 assms(1,3)
    by (simp add: is_trigger_guard_def trigger_drop_text_def)
qed

subsection \<open>The generic procedure: what it inserts, and where\<close>

lemma guard_for_cases:
  "guard_for name_of drop_text prev l w = []
   \<or> (\<exists>n t. name_of l = Some n \<and> first_table w = Some t
          \<and> guard_for name_of drop_text prev l w = [drop_text n @ '' ON '' @ t @ '';''])"
  by (auto simp: guard_for_def split: option.splits)

lemma guard_scan_kept:
  assumes "\<And>prev l w g. g \<in> set (guard_for name_of drop_text prev l w) \<Longrightarrow> P g"
  shows "kept_with_guards P ls (guard_scan name_of drop_text prev ls)"
proof (induction ls arbitrary: prev)
  case Nil
  then show ?case by simp
next
  case (Cons l ls)
  let ?w = "take 5 (l # ls)"
  from guard_for_cases [of name_of drop_text prev l ?w]
  show ?case
  proof
    assume "guard_for name_of drop_text prev l ?w = []"
    with Cons show ?thesis by simp
  next
    assume "\<exists>n t. name_of l = Some n \<and> first_table ?w = Some t
          \<and> guard_for name_of drop_text prev l ?w = [drop_text n @ '' ON '' @ t @ '';'']"
    then obtain g where g: "guard_for name_of drop_text prev l ?w = [g]" by blast
    then have "P g" using assms [of g prev l ?w] by simp
    with g Cons show ?thesis by simp
  qed
qed

lemma guard_scan_not_Nil: "ls \<noteq> [] \<Longrightarrow> guard_scan name_of drop_text prev ls \<noteq> []"
  by (cases ls) simp_all

lemma guard_scan_no_newline:
  assumes N: "\<And>l n. name_of l = Some n \<Longrightarrow> CHR 0x0A \<notin> set l \<Longrightarrow> CHR 0x0A \<notin> set (drop_text n)"
    and "\<forall>l \<in> set ls. CHR 0x0A \<notin> set l"
  shows "\<forall>l \<in> set (guard_scan name_of drop_text prev ls). CHR 0x0A \<notin> set l"
  using assms(2)
proof (induction ls arbitrary: prev)
  case Nil
  then show ?case by simp
next
  case (Cons l ls)
  let ?w = "take 5 (l # ls)"
  have w: "\<forall>x \<in> set ?w. CHR 0x0A \<notin> set x"
    using Cons.prems by (meson in_set_takeD)
  have g: "\<forall>x \<in> set (guard_for name_of drop_text prev l ?w). CHR 0x0A \<notin> set x"
    using guard_for_cases [of name_of drop_text prev l ?w]
  proof
    assume "guard_for name_of drop_text prev l ?w = []"
    then show ?thesis by simp
  next
    assume "\<exists>n t. name_of l = Some n \<and> first_table ?w = Some t
          \<and> guard_for name_of drop_text prev l ?w = [drop_text n @ '' ON '' @ t @ '';'']"
    then obtain n t where n: "name_of l = Some n" and t: "first_table ?w = Some t"
      and e: "guard_for name_of drop_text prev l ?w = [drop_text n @ '' ON '' @ t @ '';'']"
      by blast
    from N [OF n] Cons.prems have 1: "CHR 0x0A \<notin> set (drop_text n)" by simp
    from first_table_table(2) [OF t] w have 2: "CHR 0x0A \<notin> set t" by blast
    from 1 2 e show ?thesis by simp
  qed
  from Cons have "\<forall>x \<in> set (guard_scan name_of drop_text (Some l) ls). CHR 0x0A \<notin> set x"
    by simp
  with g Cons.prems show ?case by auto
qed

lemma guard_scan_length: "length ls \<le> length (guard_scan name_of drop_text prev ls)"
proof (induction ls arbitrary: prev)
  case Nil
  then show ?case by simp
next
  case (Cons l ls)
  have "length ls \<le> length (guard_scan name_of drop_text (Some l) ls)" by (rule Cons)
  then show ?case by simp
qed

lemma guard_scan_twice_iff:
  assumes D: "\<And>n r. name_of (drop_text n @ r) = None"
  shows "guard_scan name_of drop_text prev (guard_scan name_of drop_text prev ls)
           = guard_scan name_of drop_text prev ls
         \<longleftrightarrow> rerun_stable name_of drop_text prev ls"
proof (induction ls arbitrary: prev)
  case Nil
  then show ?case by simp
next
  case (Cons l ls)
  let ?w = "take 5 (l # ls)"
  let ?rest = "guard_scan name_of drop_text (Some l) ls"
  have ih: "guard_scan name_of drop_text (Some l) ?rest = ?rest
              \<longleftrightarrow> rerun_stable name_of drop_text (Some l) ls"
    by (rule Cons)
  from guard_for_cases [of name_of drop_text prev l ?w]
  show ?case
  proof
    assume e: "guard_for name_of drop_text prev l ?w = []"
    let ?g2 = "guard_for name_of drop_text prev l (take 5 (l # ?rest))"
    have out: "guard_scan name_of drop_text prev (l # ls) = l # ?rest"
      using e by simp
    have again: "guard_scan name_of drop_text prev (l # ?rest)
                   = ?g2 @ l # guard_scan name_of drop_text (Some l) ?rest"
      by simp
    have len: "length ?rest \<le> length (guard_scan name_of drop_text (Some l) ?rest)"
      by (rule guard_scan_length)
    have stay: "guard_scan name_of drop_text prev (l # ?rest) = l # ?rest
                 \<longleftrightarrow> ?g2 = [] \<and> guard_scan name_of drop_text (Some l) ?rest = ?rest"
    proof
      assume a: "guard_scan name_of drop_text prev (l # ?rest) = l # ?rest"
      have "?g2 = []"
      proof (rule ccontr)
        assume "?g2 \<noteq> []"
        then have "length (?g2 @ l # guard_scan name_of drop_text (Some l) ?rest)
                     > length (l # ?rest)"
          using len by (cases ?g2) simp_all
        with a again show False by simp
      qed
      with a again show "?g2 = [] \<and> guard_scan name_of drop_text (Some l) ?rest = ?rest"
        by simp
    next
      assume "?g2 = [] \<and> guard_scan name_of drop_text (Some l) ?rest = ?rest"
      with again show "guard_scan name_of drop_text prev (l # ?rest) = l # ?rest" by simp
    qed
    have cond: "?g2 = [] \<longleftrightarrow>
        (case name_of l of
           None \<Rightarrow> True
         | Some name \<Rightarrow>
             first_table ?w \<noteq> None
             \<or> (case prev of None \<Rightarrow> False | Some before \<Rightarrow> str_contains (drop_text name) before)
             \<or> first_table (take 5 (l # ?rest)) = None)"
      using e by (auto simp: guard_for_def split: option.splits if_splits)
    show ?thesis
      unfolding out stay cond ih by simp
  next
    assume "\<exists>n t. name_of l = Some n \<and> first_table ?w = Some t
          \<and> guard_for name_of drop_text prev l ?w = [drop_text n @ '' ON '' @ t @ '';'']"
    then obtain n t where n: "name_of l = Some n" and t: "first_table ?w = Some t"
      and e: "guard_for name_of drop_text prev l ?w = [drop_text n @ '' ON '' @ t @ '';'']"
      by blast
    let ?g = "drop_text n @ '' ON '' @ t @ '';''"
    have out: "guard_scan name_of drop_text prev (l # ls) = ?g # l # ?rest"
      using e by simp
    have 1: "guard_for name_of drop_text prev ?g (take 5 (?g # l # ?rest)) = []"
      using D [of n "'' ON '' @ t @ '';''"] by (simp add: guard_for_def)
    have 2: "guard_for name_of drop_text (Some ?g) l (take 5 (l # ?rest)) = []"
      using n str_contains_append [of "drop_text n" "'' ON '' @ t @ '';''"]
      by (simp add: guard_for_def split: option.splits)
    have again: "guard_scan name_of drop_text prev (?g # l # ?rest)
                   = ?g # l # guard_scan name_of drop_text (Some l) ?rest"
      using 1 2 by simp
    have "rerun_stable name_of drop_text prev (l # ls)
            \<longleftrightarrow> rerun_stable name_of drop_text (Some l) ls"
      using n t by simp
    then show ?thesis
      unfolding out again using ih by simp
  qed
qed

subsection \<open>The two fixers, line by line\<close>

lemma policy_scan_no_newline:
  "\<forall>l \<in> set ls. CHR 0x0A \<notin> set l \<Longrightarrow>
   \<forall>l \<in> set (guard_scan policy_name policy_drop_text prev ls). CHR 0x0A \<notin> set l"
proof (rule guard_scan_no_newline)
  fix l n
  assume "policy_name l = Some n" and "CHR 0x0A \<notin> set l"
  with policy_name_SomeD(3) [of l n] have "CHR 0x0A \<notin> set n" by blast
  then show "CHR 0x0A \<notin> set (policy_drop_text n)"
    by (simp add: policy_drop_text_def)
qed

lemma trigger_scan_no_newline:
  "\<forall>l \<in> set ls. CHR 0x0A \<notin> set l \<Longrightarrow>
   \<forall>l \<in> set (guard_scan trigger_name trigger_drop_text prev ls). CHR 0x0A \<notin> set l"
proof (rule guard_scan_no_newline)
  fix l n
  assume "trigger_name l = Some n" and "CHR 0x0A \<notin> set l"
  with trigger_name_SomeD(3) [of l n] have "CHR 0x0A \<notin> set n" by blast
  then show "CHR 0x0A \<notin> set (trigger_drop_text n)"
    by (simp add: trigger_drop_text_def)
qed

lemma split_lines_fix_create_policy:
  "split_lines (fix_create_policy c)
     = guard_scan policy_name policy_drop_text None (split_lines c)"
  unfolding fix_create_policy_scan
proof (rule split_join_lines)
  show "guard_scan policy_name policy_drop_text None (split_lines c) \<noteq> []"
    by (simp add: guard_scan_not_Nil split_lines_not_Nil)
  have "\<forall>l \<in> set (split_lines c). CHR 0x0A \<notin> set l"
    using split_lines_no_newline by blast
  then show "\<forall>l \<in> set (guard_scan policy_name policy_drop_text None (split_lines c)).
               CHR 0x0A \<notin> set l"
    by (rule policy_scan_no_newline)
qed

lemma split_lines_fix_create_trigger:
  "split_lines (fix_create_trigger c)
     = guard_scan trigger_name trigger_drop_text None (split_lines c)"
  unfolding fix_create_trigger_scan
proof (rule split_join_lines)
  show "guard_scan trigger_name trigger_drop_text None (split_lines c) \<noteq> []"
    by (simp add: guard_scan_not_Nil split_lines_not_Nil)
  have "\<forall>l \<in> set (split_lines c). CHR 0x0A \<notin> set l"
    using split_lines_no_newline by blast
  then show "\<forall>l \<in> set (guard_scan trigger_name trigger_drop_text None (split_lines c)).
               CHR 0x0A \<notin> set l"
    by (rule trigger_scan_no_newline)
qed

lemma policy_scan_kept:
  "kept_with_guards is_policy_guard ls (guard_scan policy_name policy_drop_text prev ls)"
proof (rule guard_scan_kept)
  fix prev l w g
  assume g: "g \<in> set (guard_for policy_name policy_drop_text prev l w)"
  from guard_for_cases [of policy_name policy_drop_text prev l w]
  show "is_policy_guard g"
  proof
    assume "guard_for policy_name policy_drop_text prev l w = []"
    with g show ?thesis by simp
  next
    assume "\<exists>n t. policy_name l = Some n \<and> first_table w = Some t
          \<and> guard_for policy_name policy_drop_text prev l w
              = [policy_drop_text n @ '' ON '' @ t @ '';'']"
    then obtain n t where n: "policy_name l = Some n" and t: "first_table w = Some t"
      and e: "guard_for policy_name policy_drop_text prev l w
                = [policy_drop_text n @ '' ON '' @ t @ '';'']"
      by blast
    have "is_policy_guard (policy_drop_text n @ '' ON '' @ t @ '';'')"
      using policy_name_SomeD(1,2) [OF n] first_table_nonempty [OF t] first_table_table(1) [OF t]
      by (rule is_policy_guard_drop_line)
    with g e show ?thesis by simp
  qed
qed

lemma trigger_scan_kept:
  "kept_with_guards is_trigger_guard ls (guard_scan trigger_name trigger_drop_text prev ls)"
proof (rule guard_scan_kept)
  fix prev l w g
  assume g: "g \<in> set (guard_for trigger_name trigger_drop_text prev l w)"
  from guard_for_cases [of trigger_name trigger_drop_text prev l w]
  show "is_trigger_guard g"
  proof
    assume "guard_for trigger_name trigger_drop_text prev l w = []"
    with g show ?thesis by simp
  next
    assume "\<exists>n t. trigger_name l = Some n \<and> first_table w = Some t
          \<and> guard_for trigger_name trigger_drop_text prev l w
              = [trigger_drop_text n @ '' ON '' @ t @ '';'']"
    then obtain n t where n: "trigger_name l = Some n" and t: "first_table w = Some t"
      and e: "guard_for trigger_name trigger_drop_text prev l w
                = [trigger_drop_text n @ '' ON '' @ t @ '';'']"
      by blast
    have "is_trigger_guard (trigger_drop_text n @ '' ON '' @ t @ '';'')"
      using trigger_name_SomeD(1,2) [OF n] first_table_nonempty [OF t] first_table_table(1) [OF t]
      by (rule is_trigger_guard_drop_line)
    with g e show ?thesis by simp
  qed
qed

lemma join_lines_inject:
  assumes "a \<noteq> []" and "b \<noteq> []"
    and "\<forall>l \<in> set a. CHR 0x0A \<notin> set l" and "\<forall>l \<in> set b. CHR 0x0A \<notin> set l"
  shows "join_lines a = join_lines b \<longleftrightarrow> a = b"
proof
  assume "join_lines a = join_lines b"
  then have "split_lines (join_lines a) = split_lines (join_lines b)" by simp
  then show "a = b"
    using split_join_lines [OF assms(1,3)] split_join_lines [OF assms(2,4)] by simp
next
  assume "a = b"
  then show "join_lines a = join_lines b" by simp
qed

lemma fix_create_policy_twice_iff:
  "fix_create_policy (fix_create_policy c) = fix_create_policy c
     \<longleftrightarrow> rerun_stable policy_name policy_drop_text None (split_lines c)"
proof -
  let ?once = "guard_scan policy_name policy_drop_text None (split_lines c)"
  let ?twice = "guard_scan policy_name policy_drop_text None ?once"
  have n1: "\<forall>l \<in> set ?once. CHR 0x0A \<notin> set l"
    using split_lines_no_newline by (intro policy_scan_no_newline) blast
  then have n2: "\<forall>l \<in> set ?twice. CHR 0x0A \<notin> set l"
    by (rule policy_scan_no_newline)
  have e1: "?once \<noteq> []"
    by (simp add: guard_scan_not_Nil split_lines_not_Nil)
  then have e2: "?twice \<noteq> []"
    by (rule guard_scan_not_Nil)
  have "fix_create_policy (fix_create_policy c) = join_lines ?twice"
    using fix_create_policy_scan [of "fix_create_policy c"]
    by (simp add: split_lines_fix_create_policy)
  moreover have "fix_create_policy c = join_lines ?once"
    by (rule fix_create_policy_scan)
  ultimately have "fix_create_policy (fix_create_policy c) = fix_create_policy c
      \<longleftrightarrow> ?twice = ?once"
    using join_lines_inject [OF e2 e1 n2 n1] by simp
  also have "\<dots> \<longleftrightarrow> rerun_stable policy_name policy_drop_text None (split_lines c)"
    using policy_name_drop_line by (rule guard_scan_twice_iff)
  finally show ?thesis .
qed

subsection \<open>The output of the policy fixer around one line\<close>

lemma policy_loop_emitted:
  "i \<le> length lines \<Longrightarrow>
   policy_loop lines i fixed_lines = fixed_lines @ policy_emitted lines i (length lines)"
proof (induction lines i fixed_lines rule: policy_loop.induct)
  case (1 lines i fixed_lines)
  show ?case
  proof (cases "i < length lines")
    case True
    with 1 show ?thesis
      by (subst policy_loop.simps) (simp add: policy_emitted_def upt_conv_Cons)
  next
    case False
    with 1 show ?thesis
      by (subst policy_loop.simps) (simp add: policy_emitted_def)
  qed
qed

lemma split_lines_policy_emitted:
  "split_lines (fix_create_policy c)
     = policy_emitted (split_lines c) 0 (length (split_lines c))"
  using policy_loop_emitted [of 0 "split_lines c" "[]"]
    policy_loop_generic [of 0 "split_lines c" "[]"]
  by (simp add: split_lines_fix_create_policy)

lemma policy_emitted_at:
  assumes "i < n"
  shows "policy_emitted lines 0 n
           = policy_emitted lines 0 i @ policy_guard lines i @ lines ! i # policy_emitted lines (Suc i) n"
proof -
  have "[0 ..< i + (n - i)] = [0 ..< i] @ [i ..< i + (n - i)]"
    by (rule upt_add_eq_append) simp
  with assms have "[0 ..< n] = [0 ..< i] @ i # [Suc i ..< n]"
    by (simp add: upt_conv_Cons)
  then show ?thesis by (simp add: policy_emitted_def)
qed

lemma policy_emitted_last:
  assumes "0 < i"
  shows "policy_emitted lines 0 i \<noteq> []" and "last (policy_emitted lines 0 i) = lines ! (i - 1)"
proof -
  from assms obtain k where k: "i = Suc k" by (cases i) auto
  have "policy_emitted lines 0 (Suc k)
          = (policy_emitted lines 0 k @ policy_guard lines k) @ [lines ! k]"
    by (simp add: policy_emitted_def)
  with k show "policy_emitted lines 0 i \<noteq> []" and "last (policy_emitted lines 0 i) = lines ! (i - 1)"
    by simp_all
qed

lemma first_table_first:
  assumes "j < length ws" and "re_search on_at (ws ! j) = Some t"
    and "\<forall>k<j. re_search on_at (ws ! k) = None"
  shows "first_table ws = Some t"
  using assms
proof (induction ws arbitrary: j)
  case Nil
  then show ?case by simp
next
  case (Cons w ws)
  show ?case
  proof (cases j)
    case 0
    with Cons.prems show ?thesis by simp
  next
    case (Suc m)
    with Cons.prems have "re_search on_at w = None" by auto
    moreover have "first_table ws = Some t"
    proof (rule Cons.IH)
      show "m < length ws" using Cons.prems Suc by simp
      show "re_search on_at (ws ! m) = Some t" using Cons.prems Suc by simp
      show "\<forall>k<m. re_search on_at (ws ! k) = None"
        using Cons.prems(3) Suc by auto
    qed
    ultimately show ?thesis by simp
  qed
qed

lemma first_table_none:
  "\<forall>w \<in> set ws. re_search on_at w = None \<Longrightarrow> first_table ws = None"
  by (induction ws) simp_all

lemma find_table_first:
  assumes "j < 5" and "i + j < length lines" and "re_search on_at (lines ! (i + j)) = Some t"
    and "\<forall>k<j. re_search on_at (lines ! (i + k)) = None"
  shows "find_table lines i = Some t"
  unfolding find_table_window
proof (rule first_table_first [of j])
  show "j < length (take 5 (drop i lines))" using assms(1,2) by simp
  show "re_search on_at (take 5 (drop i lines) ! j) = Some t"
    using assms(1,2,3) by simp
  show "\<forall>k<j. re_search on_at (take 5 (drop i lines) ! k) = None"
    using assms by simp
qed

lemma find_table_none:
  assumes "\<forall>j<5. i + j < length lines \<longrightarrow> re_search on_at (lines ! (i + j)) = None"
  shows "find_table lines i = None"
  unfolding find_table_window
proof (rule first_table_none, rule ballI)
  fix w
  assume "w \<in> set (take 5 (drop i lines))"
  then obtain k where k: "k < length (take 5 (drop i lines))" and w: "w = take 5 (drop i lines) ! k"
    by (metis in_set_conv_nth)
  from k have "k < 5" and "i + k < length lines" by auto
  with assms w show "re_search on_at w = None" by simp
qed

lemma policy_guard_found:
  assumes "re_match_policy (lines ! i)" and "re_search policy_at (lines ! i) = Some p"
    and "find_table lines i = Some t"
  shows "policy_guard lines i
           = (if 0 < i \<and> str_contains (policy_drop_text p) (lines ! (i - 1)) then []
              else [policy_drop_line p t])"
proof -
  from assms(3) have "t \<noteq> []"
    unfolding find_table_window by (rule first_table_nonempty)
  with assms show ?thesis by (simp add: policy_guard_def)
qed

lemma policy_guard_none:
  "find_table lines i = None \<Longrightarrow> policy_guard lines i = []"
  by (simp add: policy_guard_def split: option.splits)

lemma str_contains_drop_line: "str_contains (policy_drop_text p) (policy_drop_line p t)"
  using str_contains_append [of "policy_drop_text p" "'' ON '' @ t @ '';''"]
  by (simp add: policy_drop_text_def policy_drop_line_def)

subsection \<open>Claims about the policy fixer and the trigger fixer\<close>

lemmas pattern_defs =
  policy_at_def trigger_at_def on_at_def re_match_policy_def re_match_trigger_def
  policy_name_def trigger_name_def is_space_def is_word_def is_table_char_def
  policy_drop_text_def policy_drop_line_def trigger_drop_text_def trigger_drop_line_def

text \<open>
  Claim C1, as stated: every \<^verbatim>\<open>CREATE POLICY "p"\<close> line with an \<^verbatim>\<open>ON t\<close> in its window has
  the guard line for \<open>p\<close> and \<open>t\<close> right before it in the output. It fails when the line
  before holds the text \<^verbatim>\<open>DROP POLICY IF EXISTS "p"\<close> in any form, here in a comment: the
  fixer inserts nothing, and the output has no guard line at all.
\<close>

theorem policy_guard_counterexample:
  \<open>re_match_policy (split_lines ''-- DROP POLICY IF EXISTS "p"\<newline>CREATE POLICY "p" ON t'' ! 1)
   \<and> re_search policy_at (split_lines ''-- DROP POLICY IF EXISTS "p"\<newline>CREATE POLICY "p" ON t'' ! 1)
       = Some ''p''
   \<and> re_search on_at (split_lines ''-- DROP POLICY IF EXISTS "p"\<newline>CREATE POLICY "p" ON t'' ! 1)
       = Some ''t''
   \<and> fix_create_policy ''-- DROP POLICY IF EXISTS "p"\<newline>CREATE POLICY "p" ON t''
       = ''-- DROP POLICY IF EXISTS "p"\<newline>CREATE POLICY "p" ON t''
   \<and> ''DROP POLICY IF EXISTS "p" ON t;''
       \<notin> set (split_lines (fix_create_policy ''-- DROP POLICY IF EXISTS "p"\<newline>CREATE POLICY "p" ON t''))\<close>
  by (simp add: fix_create_policy_scan guard_for_def pattern_defs)

text \<open>
  Claim C1, amended: for every line \<open>i\<close> of the input that matches \<^verbatim>\<open>CREATE POLICY "p"\<close>
  after optional whitespace, whose window (the line and the next four) has its first
  \<^verbatim>\<open>ON <table>\<close> on line \<open>i + j\<close> with the table \<open>t\<close>, and whose preceding line does not
  hold the text \<^verbatim>\<open>DROP POLICY IF EXISTS "p"\<close>: the output is what the fixer emitted for
  the lines before, then the guard line \<^verbatim>\<open>DROP POLICY IF EXISTS "p" ON t;\<close> once, then the
  line, then what the fixer emits for the lines after; and the guard line is not also
  the line before the inserted one.
\<close>

theorem policy_guard_inserted:
  assumes "lines = split_lines c" and "i < length lines"
    and "re_match_policy (lines ! i)" and "re_search policy_at (lines ! i) = Some p"
    and "j < 5" and "i + j < length lines" and "re_search on_at (lines ! (i + j)) = Some t"
    and "\<forall>k<j. re_search on_at (lines ! (i + k)) = None"
    and "\<not> (0 < i \<and> str_contains (policy_drop_text p) (lines ! (i - 1)))"
  shows "split_lines (fix_create_policy c)
           = policy_emitted lines 0 i @ [policy_drop_line p t, lines ! i]
               @ policy_emitted lines (Suc i) (length lines)
         \<and> \<not> suffix [policy_drop_line p t] (policy_emitted lines 0 i)"
proof
  have t: "find_table lines i = Some t"
    using assms(5-8) by (rule find_table_first)
  have "policy_guard lines i = [policy_drop_line p t]"
    using policy_guard_found [OF assms(3,4) t] assms(9) by simp
  then show "split_lines (fix_create_policy c)
           = policy_emitted lines 0 i @ [policy_drop_line p t, lines ! i]
               @ policy_emitted lines (Suc i) (length lines)"
    using policy_emitted_at [OF assms(2), of lines] assms(1)
    by (simp add: split_lines_policy_emitted)
  show "\<not> suffix [policy_drop_line p t] (policy_emitted lines 0 i)"
  proof
    assume "suffix [policy_drop_line p t] (policy_emitted lines 0 i)"
    then obtain ys where ys: "policy_emitted lines 0 i = ys @ [policy_drop_line p t]"
      by (auto simp: suffix_def)
    have "0 < i"
    proof (rule ccontr)
      assume "\<not> 0 < i"
      then have "policy_emitted lines 0 i = []" by (simp add: policy_emitted_def)
      with ys show False by simp
    qed
    from policy_emitted_last(2) [OF this, of lines] ys
    have "lines ! (i - 1) = policy_drop_line p t" by simp
    with \<open>0 < i\<close> assms(9) str_contains_drop_line [of p t] show False by simp
  qed
qed

theorem policy_guard_inserted_witness:
  \<open>1 < length (split_lines ''-- read\<newline>CREATE POLICY "p"\<newline>  ON t'')
   \<and> re_match_policy (split_lines ''-- read\<newline>CREATE POLICY "p"\<newline>  ON t'' ! 1)
   \<and> re_search policy_at (split_lines ''-- read\<newline>CREATE POLICY "p"\<newline>  ON t'' ! 1) = Some ''p''
   \<and> re_search on_at (split_lines ''-- read\<newline>CREATE POLICY "p"\<newline>  ON t'' ! (1 + 1)) = Some ''t''
   \<and> re_search on_at (split_lines ''-- read\<newline>CREATE POLICY "p"\<newline>  ON t'' ! (1 + 0)) = None
   \<and> str_contains (policy_drop_text ''p'')
         (split_lines ''-- read\<newline>CREATE POLICY "p"\<newline>  ON t'' ! (1 - 1)) = False
   \<and> split_lines (fix_create_policy ''-- read\<newline>CREATE POLICY "p"\<newline>  ON t'')
       = [''-- read'', ''DROP POLICY IF EXISTS "p" ON t;'', ''CREATE POLICY "p"'', ''  ON t'']\<close>
proof -
  let ?c = \<open>''-- read\<newline>CREATE POLICY "p"\<newline>  ON t''\<close>
  have l: \<open>split_lines ?c = [''-- read'', ''CREATE POLICY "p"'', ''  ON t'']\<close> by simp
  have h2: "1 < length (split_lines ?c)" by simp
  have h3: "re_match_policy (split_lines ?c ! 1)" by (simp add: pattern_defs)
  have h4: "re_search policy_at (split_lines ?c ! 1) = Some ''p''" by (simp add: pattern_defs)
  have h5: "(1::nat) < 5" by simp
  have h6: "1 + 1 < length (split_lines ?c)" by simp
  have h7: "re_search on_at (split_lines ?c ! (1 + 1)) = Some ''t''" by (simp add: pattern_defs)
  have h8: "\<forall>k<1. re_search on_at (split_lines ?c ! (1 + k)) = None" by (simp add: pattern_defs)
  have h9: "\<not> (0 < (1::nat) \<and> str_contains (policy_drop_text ''p'') (split_lines ?c ! (1 - 1)))"
    by (simp add: pattern_defs)
  have e0: "policy_emitted (split_lines ?c) 0 1 = [''-- read'']"
    by (simp add: policy_emitted_def policy_guard_def pattern_defs)
  have e2: "policy_emitted (split_lines ?c) (Suc 1) (length (split_lines ?c)) = [''  ON t'']"
    unfolding l by (simp add: policy_emitted_def policy_guard_def pattern_defs upt_rec)
  from policy_guard_inserted [OF refl h2 h3 h4 h5 h6 h7 h8 h9]
  have \<open>split_lines (fix_create_policy ?c)
          = [''-- read'', ''DROP POLICY IF EXISTS "p" ON t;'', ''CREATE POLICY "p"'', ''  ON t'']\<close>
    unfolding e0 e2 by (simp add: policy_drop_line_def)
  moreover have "re_search on_at (split_lines ?c ! (1 + 0)) = None"
    by (simp add: pattern_defs)
  moreover have "str_contains (policy_drop_text ''p'') (split_lines ?c ! (1 - 1)) = False"
    by (simp add: pattern_defs)
  ultimately show ?thesis using h2 h3 h4 h7 by blast
qed

text \<open>
  Claim C2, as stated: the guard is left out if and only if the line before equals
  \<^verbatim>\<open>DROP POLICY IF EXISTS "p" ON t;\<close>, table included. It fails: the fixer looks for the text
  \<^verbatim>\<open>DROP POLICY IF EXISTS "p"\<close> anywhere in the line before, so a guard for another table
  also makes it leave the guard out.
\<close>

theorem policy_guard_equality_counterexample:
  \<open>re_match_policy (split_lines ''DROP POLICY IF EXISTS "p" ON u;\<newline>CREATE POLICY "p" ON t'' ! 1)
   \<and> re_search policy_at (split_lines ''DROP POLICY IF EXISTS "p" ON u;\<newline>CREATE POLICY "p" ON t'' ! 1)
       = Some ''p''
   \<and> find_table (split_lines ''DROP POLICY IF EXISTS "p" ON u;\<newline>CREATE POLICY "p" ON t'') 1
       = Some ''t''
   \<and> split_lines ''DROP POLICY IF EXISTS "p" ON u;\<newline>CREATE POLICY "p" ON t'' ! 0
       \<noteq> ''DROP POLICY IF EXISTS "p" ON t;''
   \<and> fix_create_policy ''DROP POLICY IF EXISTS "p" ON u;\<newline>CREATE POLICY "p" ON t''
       = ''DROP POLICY IF EXISTS "p" ON u;\<newline>CREATE POLICY "p" ON t''\<close>
  by (simp add: fix_create_policy_scan guard_for_def find_table_window pattern_defs)

text \<open>
  Claim C2, amended: for every line \<open>i\<close> that matches \<^verbatim>\<open>CREATE POLICY "p"\<close> and has the table
  \<open>t\<close> in its window, the fixer inserts nothing before the line if and only if there is
  a line before it and that line holds the text \<^verbatim>\<open>DROP POLICY IF EXISTS "p"\<close> somewhere,
  with any table or none. The line before it in the input is the last line of the
  output so far. In particular nothing is inserted when the line before is
  \<^verbatim>\<open>DROP POLICY IF EXISTS "p" ON t;\<close>.
\<close>

theorem policy_guard_skipped_iff:
  assumes "lines = split_lines c" and "i < length lines"
    and "re_match_policy (lines ! i)" and "re_search policy_at (lines ! i) = Some p"
    and "find_table lines i = Some t"
  shows "((split_lines (fix_create_policy c)
             = policy_emitted lines 0 i @ lines ! i # policy_emitted lines (Suc i) (length lines))
          \<longleftrightarrow> (0 < i \<and> str_contains (policy_drop_text p) (lines ! (i - 1))))
         \<and> (0 < i \<longrightarrow> last (policy_emitted lines 0 i) = lines ! (i - 1))
         \<and> (0 < i \<and> lines ! (i - 1) = policy_drop_line p t \<longrightarrow>
              split_lines (fix_create_policy c)
                = policy_emitted lines 0 i @ lines ! i # policy_emitted lines (Suc i) (length lines))"
proof -
  let ?skip = "0 < i \<and> str_contains (policy_drop_text p) (lines ! (i - 1))"
  have out: "split_lines (fix_create_policy c)
      = policy_emitted lines 0 i @ (if ?skip then [] else [policy_drop_line p t])
          @ lines ! i # policy_emitted lines (Suc i) (length lines)"
    using policy_emitted_at [OF assms(2), of lines] policy_guard_found [OF assms(3-5)] assms(1)
    by (simp add: split_lines_policy_emitted)
  have 1: "(split_lines (fix_create_policy c)
             = policy_emitted lines 0 i @ lines ! i # policy_emitted lines (Suc i) (length lines))
          \<longleftrightarrow> ?skip"
    unfolding out by (cases ?skip) simp_all
  have 2: "0 < i \<longrightarrow> last (policy_emitted lines 0 i) = lines ! (i - 1)"
    using policy_emitted_last(2) [of i lines] by blast
  have 3: "0 < i \<and> lines ! (i - 1) = policy_drop_line p t \<longrightarrow> ?skip"
    using str_contains_drop_line [of p t] by simp
  from 1 2 3 show ?thesis by blast
qed

theorem policy_guard_skipped_iff_witness:
  \<open>1 < length (split_lines ''DROP POLICY IF EXISTS "p" ON t;\<newline>CREATE POLICY "p" ON t'')
   \<and> re_match_policy (split_lines ''DROP POLICY IF EXISTS "p" ON t;\<newline>CREATE POLICY "p" ON t'' ! 1)
   \<and> re_search policy_at (split_lines ''DROP POLICY IF EXISTS "p" ON t;\<newline>CREATE POLICY "p" ON t'' ! 1)
       = Some ''p''
   \<and> find_table (split_lines ''DROP POLICY IF EXISTS "p" ON t;\<newline>CREATE POLICY "p" ON t'') 1
       = Some ''t''
   \<and> split_lines (fix_create_policy ''DROP POLICY IF EXISTS "p" ON t;\<newline>CREATE POLICY "p" ON t'')
       = [''DROP POLICY IF EXISTS "p" ON t;'', ''CREATE POLICY "p" ON t'']\<close>
proof -
  let ?c = \<open>''DROP POLICY IF EXISTS "p" ON t;\<newline>CREATE POLICY "p" ON t''\<close>
  have l: \<open>split_lines ?c = [''DROP POLICY IF EXISTS "p" ON t;'', ''CREATE POLICY "p" ON t'']\<close>
    by simp
  have h2: "1 < length (split_lines ?c)" by simp
  have h3: "re_match_policy (split_lines ?c ! 1)" by (simp add: pattern_defs)
  have h4: "re_search policy_at (split_lines ?c ! 1) = Some ''p''" by (simp add: pattern_defs)
  have h5: "find_table (split_lines ?c) 1 = Some ''t''"
    by (simp add: find_table_window pattern_defs)
  have s: "0 < (1::nat) \<and> split_lines ?c ! (1 - 1) = policy_drop_line ''p'' ''t''"
    by (simp add: policy_drop_line_def)
  have e0: \<open>policy_emitted (split_lines ?c) 0 1 = [''DROP POLICY IF EXISTS "p" ON t;'']\<close>
    by (simp add: policy_emitted_def policy_guard_def pattern_defs)
  have e2: "policy_emitted (split_lines ?c) (Suc 1) (length (split_lines ?c)) = []"
    unfolding l by (simp add: policy_emitted_def)
  from policy_guard_skipped_iff [OF refl h2 h3 h4 h5] s
  have "split_lines (fix_create_policy ?c)
          = policy_emitted (split_lines ?c) 0 1 @ split_lines ?c ! 1
              # policy_emitted (split_lines ?c) (Suc 1) (length (split_lines ?c))"
    by blast
  then have \<open>split_lines (fix_create_policy ?c)
          = [''DROP POLICY IF EXISTS "p" ON t;'', ''CREATE POLICY "p" ON t'']\<close>
    unfolding e0 e2 by simp
  with h2 h3 h4 h5 show ?thesis by blast
qed

text \<open>
  Claim C5: for every line \<open>i\<close> of the input that matches \<^verbatim>\<open>CREATE POLICY "p"\<close> and has no
  \<^verbatim>\<open>ON <table>\<close> on any line of its window, the output is what the fixer emitted for
  the lines before, then the line itself, then what it emits for the lines after:
  nothing is inserted for the line, and the line is unchanged. The fixer is a total
  function, so the missing \<^verbatim>\<open>ON\<close> clause is no error.
\<close>

theorem policy_no_table_no_guard:
  assumes "lines = split_lines c" and "i < length lines"
    and "re_match_policy (lines ! i)"
    and "\<forall>j<5. i + j < length lines \<longrightarrow> re_search on_at (lines ! (i + j)) = None"
  shows "split_lines (fix_create_policy c)
           = policy_emitted lines 0 i @ lines ! i # policy_emitted lines (Suc i) (length lines)"
proof -
  have "policy_guard lines i = []"
    using assms(4) by (intro policy_guard_none find_table_none)
  then show ?thesis
    using policy_emitted_at [OF assms(2), of lines] assms(1)
    by (simp add: split_lines_policy_emitted)
qed

theorem policy_no_table_no_guard_witness:
  \<open>0 < length (split_lines ''CREATE POLICY "p"\<newline>  FOR SELECT\<newline>  USING (true);'')
   \<and> re_match_policy (split_lines ''CREATE POLICY "p"\<newline>  FOR SELECT\<newline>  USING (true);'' ! 0)
   \<and> first_table (split_lines ''CREATE POLICY "p"\<newline>  FOR SELECT\<newline>  USING (true);'') = None
   \<and> split_lines (fix_create_policy ''CREATE POLICY "p"\<newline>  FOR SELECT\<newline>  USING (true);'')
       = [''CREATE POLICY "p"'', ''  FOR SELECT'', ''  USING (true);'']\<close>
proof -
  let ?c = \<open>''CREATE POLICY "p"\<newline>  FOR SELECT\<newline>  USING (true);''\<close>
  have l: \<open>split_lines ?c = [''CREATE POLICY "p"'', ''  FOR SELECT'', ''  USING (true);'']\<close>
    by simp
  have h2: "0 < length (split_lines ?c)" by simp
  have h3: "re_match_policy (split_lines ?c ! 0)" by (simp add: pattern_defs)
  have h4: "\<forall>j<5. 0 + j < length (split_lines ?c)
              \<longrightarrow> re_search on_at (split_lines ?c ! (0 + j)) = None"
  proof (intro allI impI)
    fix j :: nat
    assume "j < 5" and "0 + j < length (split_lines ?c)"
    then have "j = 0 \<or> j = 1 \<or> j = 2" unfolding l by auto
    then show "re_search on_at (split_lines ?c ! (0 + j)) = None"
      unfolding l by (auto simp: pattern_defs)
  qed
  have e0: "policy_emitted (split_lines ?c) 0 0 = []"
    by (simp add: policy_emitted_def)
  have e2: "policy_emitted (split_lines ?c) (Suc 0) (length (split_lines ?c))
              = [''  FOR SELECT'', ''  USING (true);'']"
    unfolding l by (simp add: policy_emitted_def policy_guard_def pattern_defs upt_rec)
  from policy_no_table_no_guard [OF refl h2 h3 h4]
  have \<open>split_lines (fix_create_policy ?c)
          = [''CREATE POLICY "p"'', ''  FOR SELECT'', ''  USING (true);'']\<close>
    unfolding e0 e2 by simp
  moreover have "first_table (split_lines ?c) = None"
    by (simp add: pattern_defs)
  ultimately show ?thesis using h2 h3 by blast
qed

text \<open>
  Claim C6: the output lines of the policy fixer are the input lines, each one as it was
  and in the same order, with lines of the form \<^verbatim>\<open>DROP POLICY IF EXISTS "<name>" ON <table>;\<close>
  put in between; likewise the trigger fixer, with lines
  \<^verbatim>\<open>DROP TRIGGER IF EXISTS <name> ON <table>;\<close>.
\<close>

theorem fixers_keep_lines:
  "kept_with_guards is_policy_guard (split_lines c) (split_lines (fix_create_policy c))
   \<and> kept_with_guards is_trigger_guard (split_lines c) (split_lines (fix_create_trigger c))"
  by (simp add: split_lines_fix_create_policy split_lines_fix_create_trigger
      policy_scan_kept trigger_scan_kept)

theorem fixers_keep_lines_witness:
  \<open>kept_with_guards is_policy_guard
     [''CREATE POLICY "read_own" ON profiles'', ''FOR SELECT USING (...);'']
     [''DROP POLICY IF EXISTS "read_own" ON profiles;'',
      ''CREATE POLICY "read_own" ON profiles'', ''FOR SELECT USING (...);'']
   \<and> kept_with_guards is_trigger_guard
     [''CREATE POLICY "read_own" ON profiles'', ''FOR SELECT USING (...);'']
     [''CREATE POLICY "read_own" ON profiles'', ''FOR SELECT USING (...);'']\<close>
proof -
  let ?c = \<open>''CREATE POLICY "read_own" ON profiles\<newline>FOR SELECT USING (...);''\<close>
  have l: \<open>split_lines ?c
             = [''CREATE POLICY "read_own" ON profiles'', ''FOR SELECT USING (...);'']\<close>
    by simp
  have p: \<open>split_lines (fix_create_policy ?c)
             = [''DROP POLICY IF EXISTS "read_own" ON profiles;'',
                ''CREATE POLICY "read_own" ON profiles'', ''FOR SELECT USING (...);'']\<close>
    unfolding split_lines_fix_create_policy l by (simp add: guard_for_def pattern_defs)
  have t: \<open>split_lines (fix_create_trigger ?c)
             = [''CREATE POLICY "read_own" ON profiles'', ''FOR SELECT USING (...);'']\<close>
    unfolding split_lines_fix_create_trigger l by (simp add: guard_for_def pattern_defs)
  from fixers_keep_lines [of ?c] show ?thesis
    unfolding p t l .
qed

text \<open>
  Claim C7: the policy fixer and the trigger fixer are the same procedure \<open>guard_scan\<close>,
  taken at two statement patterns and two guard texts: the name of a policy is
  double-quoted, the name of a trigger is a word, and the guard lines the source builds
  are the guard text, then \<^verbatim>\<open>ON\<close> and the table, then a semicolon.
\<close>

theorem trigger_fixer_same_procedure:
  "fix_create_policy c
     = join_lines (guard_scan policy_name policy_drop_text None (split_lines c))
   \<and> fix_create_trigger c
     = join_lines (guard_scan trigger_name trigger_drop_text None (split_lines c))
   \<and> policy_drop_line n t = policy_drop_text n @ '' ON '' @ t @ '';''
   \<and> trigger_drop_line n t = trigger_drop_text n @ '' ON '' @ t @ '';''"
  by (simp add: fix_create_policy_scan fix_create_trigger_scan
      policy_drop_line_def policy_drop_text_def trigger_drop_line_def trigger_drop_text_def)

theorem trigger_fixer_same_procedure_witness:
  "fix_create_trigger ''CREATE TRIGGER set_ts\<newline>  BEFORE UPDATE ON public.posts''
     = ''DROP TRIGGER IF EXISTS set_ts ON public.posts;\<newline>CREATE TRIGGER set_ts\<newline>  BEFORE UPDATE ON public.posts''
   \<and> fix_create_policy ''CREATE TRIGGER set_ts\<newline>  BEFORE UPDATE ON public.posts''
     = ''CREATE TRIGGER set_ts\<newline>  BEFORE UPDATE ON public.posts''"
proof -
  let ?c = "''CREATE TRIGGER set_ts\<newline>  BEFORE UPDATE ON public.posts''"
  have 1: "join_lines (guard_scan trigger_name trigger_drop_text None (split_lines ?c))
             = ''DROP TRIGGER IF EXISTS set_ts ON public.posts;\<newline>CREATE TRIGGER set_ts\<newline>  BEFORE UPDATE ON public.posts''"
    by (simp add: guard_for_def pattern_defs)
  have 2: "join_lines (guard_scan policy_name policy_drop_text None (split_lines ?c)) = ?c"
    by (simp add: guard_for_def pattern_defs)
  from trigger_fixer_same_procedure [of ?c "[]" "[]"] show ?thesis
    unfolding 1 2 by simp
qed

text \<open>
  Claim C10, as stated: the policy fixer is idempotent, and a guard line a first run
  inserts never makes a second run insert more. It fails: the first statement below has
  no \<^verbatim>\<open>ON\<close> in its window and gets no guard in the first run; the guard the first run
  inserts for the second statement falls into that window, and the second run takes its
  table for the first statement.
\<close>

theorem policy_idempotent_counterexample:
  \<open>fix_create_policy (fix_create_policy
      ''CREATE POLICY "a"\<newline>CREATE POLICY "b"\<newline>  FOR SELECT\<newline>  TO public\<newline>  USING (true)\<newline>  ON t'')
   \<noteq> fix_create_policy
      ''CREATE POLICY "a"\<newline>CREATE POLICY "b"\<newline>  FOR SELECT\<newline>  TO public\<newline>  USING (true)\<newline>  ON t''\<close>
  by (simp add: fix_create_policy_scan guard_for_def pattern_defs)

text \<open>
  Claim C10, amended: running the policy fixer twice gives what running it once gives
  if and only if each line of the input that matches \<^verbatim>\<open>CREATE POLICY "p"\<close> has an
  \<^verbatim>\<open>ON <table>\<close> in its window, or has the text \<^verbatim>\<open>DROP POLICY IF EXISTS "p"\<close> in the line
  before it, or has no \<^verbatim>\<open>ON <table>\<close> in its window in the output of the first run (the
  line and the four lines after it there): a statement left without a guard stays so
  as long as no guard line of the first run enters its window.
\<close>

theorem fix_create_policy_idempotent:
  "fix_create_policy (fix_create_policy c) = fix_create_policy c
     \<longleftrightarrow> rerun_stable policy_name policy_drop_text None (split_lines c)"
  by (rule fix_create_policy_twice_iff)

theorem fix_create_policy_idempotent_witness:
  \<open>fix_create_policy
      ''CREATE POLICY "a"\<newline>  FOR SELECT\<newline>  TO public\<newline>  USING (true)\<newline>  WITH CHECK (true)\<newline>  -- end\<newline>  ON t;\<newline>CREATE POLICY "b" ON u''
     = ''CREATE POLICY "a"\<newline>  FOR SELECT\<newline>  TO public\<newline>  USING (true)\<newline>  WITH CHECK (true)\<newline>  -- end\<newline>  ON t;\<newline>DROP POLICY IF EXISTS "b" ON u;\<newline>CREATE POLICY "b" ON u''
   \<and> fix_create_policy
      ''CREATE POLICY "a"\<newline>  FOR SELECT\<newline>  TO public\<newline>  USING (true)\<newline>  WITH CHECK (true)\<newline>  -- end\<newline>  ON t;\<newline>DROP POLICY IF EXISTS "b" ON u;\<newline>CREATE POLICY "b" ON u''
     = ''CREATE POLICY "a"\<newline>  FOR SELECT\<newline>  TO public\<newline>  USING (true)\<newline>  WITH CHECK (true)\<newline>  -- end\<newline>  ON t;\<newline>DROP POLICY IF EXISTS "b" ON u;\<newline>CREATE POLICY "b" ON u''\<close>
proof -
  let ?c = \<open>''CREATE POLICY "a"\<newline>  FOR SELECT\<newline>  TO public\<newline>  USING (true)\<newline>  WITH CHECK (true)\<newline>  -- end\<newline>  ON t;\<newline>CREATE POLICY "b" ON u''\<close>
  have h: "rerun_stable policy_name policy_drop_text None (split_lines ?c)"
    by (simp add: guard_for_def pattern_defs)
  have f: \<open>fix_create_policy ?c
     = ''CREATE POLICY "a"\<newline>  FOR SELECT\<newline>  TO public\<newline>  USING (true)\<newline>  WITH CHECK (true)\<newline>  -- end\<newline>  ON t;\<newline>DROP POLICY IF EXISTS "b" ON u;\<newline>CREATE POLICY "b" ON u''\<close>
    by (simp add: fix_create_policy_scan guard_for_def pattern_defs)
  from fix_create_policy_idempotent [of ?c] h
  have "fix_create_policy (fix_create_policy ?c) = fix_create_policy ?c" by blast
  with f show ?thesis by simp
qed

section \<open>The driver\<close>

text \<open>
  The file system is a map from paths to the text of the files; a path is the list of its
  components, as \<^verbatim>\<open>pathlib\<close> keeps it. The state also keeps every write and every line
  printed, in order. A file that is not there makes \<^verbatim>\<open>open\<close> raise; other failures of the
  operating system are outside the model.
\<close>

type_synonym path = "string list"

datatype message =
    Fixing string
  | Fixed string
  | No_changes string
  | File_not_found string
  | Fixed_count nat
  | All_idempotent

datatype error = FileNotFoundError path

record world =
  files :: "path \<rightharpoonup> string"
  writes :: "(path \<times> string) list"
  console :: "message list"

definition print :: "message \<Rightarrow> world \<Rightarrow> world" where
  "print m w = w\<lparr>console := console w @ [m]\<rparr>"

definition write_file :: "path \<Rightarrow> string \<Rightarrow> world \<Rightarrow> world" where
  \<comment> \<open>\<^verbatim>\<open>with open(filepath, 'w') as f: f.write(content)\<close>\<close>
  "write_file filepath content w =
     w\<lparr>files := (files w)(filepath \<mapsto> content), writes := writes w @ [(filepath, content)]\<rparr>"

definition fix_migration_file :: "path \<Rightarrow> world \<Rightarrow> error + (bool \<times> world)" where
  \<comment> \<open>\<^verbatim>\<open>filepath.name\<close> is the last component of the path\<close>
  "fix_migration_file filepath w =
     (let w1 = print (Fixing (last filepath)) w in
      case files w1 filepath of
        None \<Rightarrow> Inl (FileNotFoundError filepath)
      | Some original_content \<Rightarrow>
          let content = fix_create_index original_content;
              content = fix_create_policy content;
              content = fix_create_trigger content
          in if content \<noteq> original_content
             then Inr (True, print (Fixed (last filepath)) (write_file filepath content w1))
             else Inr (False, print (No_changes (last filepath)) w1))"

definition migrations_dir :: path where
  "migrations_dir = [''supabase'', ''migrations'']"

definition migrations_to_fix :: "string list" where
  "migrations_to_fix =
     [''00003_brand_brain_schema.sql'',
      ''00004_rate_limiting.sql'',
      ''00006_post_generator_schema.sql'',
      ''00007_engagement_agent.sql'',
      ''00008_engagement_agent_schema.sql'',
      ''00009_payment_subscription_schema.sql'',
      ''00010_social_scheduler_schema.sql'',
      ''00011_free_tier_initialization.sql'']"

fun main_loop :: "string list \<Rightarrow> nat \<Rightarrow> world \<Rightarrow> error + (nat \<times> world)" where
  \<comment> \<open>the \<^verbatim>\<open>for migration_name in migrations_to_fix\<close> loop, from the names left, the
      \<^verbatim>\<open>fixed_count\<close> so far and the state\<close>
  "main_loop [] fixed_count w = Inr (fixed_count, w)"
| "main_loop (migration_name # rest) fixed_count w =
     (let filepath = migrations_dir @ [migration_name] in
      if files w filepath \<noteq> None then
        (case fix_migration_file filepath w of
           Inl e \<Rightarrow> Inl e
         | Inr (fixed, w') \<Rightarrow> main_loop rest (if fixed then fixed_count + 1 else fixed_count) w')
      else main_loop rest fixed_count (print (File_not_found migration_name) w))"

definition main :: "world \<Rightarrow> error + world" where
  \<comment> \<open>\<^verbatim>\<open>filepath.exists()\<close> is the test in \<open>main_loop\<close> that the map has the path\<close>
  "main w =
     (case main_loop migrations_to_fix 0 w of
        Inl e \<Rightarrow> Inl e
      | Inr (fixed_count, w') \<Rightarrow> Inr (print All_idempotent (print (Fixed_count fixed_count) w')))"

subsection \<open>What a run is expected to do, read off the files at the start\<close>

definition apply_fixes :: "string \<Rightarrow> string" where
  \<comment> \<open>the three fixers, each on the output of the one before\<close>
  "apply_fixes content = fix_create_trigger (fix_create_policy (fix_create_index content))"

definition modified :: "world \<Rightarrow> string \<Rightarrow> bool" where
  \<comment> \<open>the named migration is there and the fixers change it\<close>
  "modified w name =
     (case files w (migrations_dir @ [name]) of
        None \<Rightarrow> False
      | Some content \<Rightarrow> apply_fixes content \<noteq> content)"

definition written :: "world \<Rightarrow> string \<Rightarrow> path \<times> string" where
  "written w name =
     (migrations_dir @ [name],
      case files w (migrations_dir @ [name]) of None \<Rightarrow> [] | Some content \<Rightarrow> apply_fixes content)"

definition file_messages :: "world \<Rightarrow> string \<Rightarrow> message list" where
  "file_messages w name =
     (case files w (migrations_dir @ [name]) of
        None \<Rightarrow> [File_not_found name]
      | Some content \<Rightarrow>
          [Fixing name, if apply_fixes content \<noteq> content then Fixed name else No_changes name])"

subsection \<open>Properties of the driver\<close>

lemma fix_migration_file_result:
  assumes "files w filepath = Some content"
  shows "fix_migration_file filepath w
           = Inr (apply_fixes content \<noteq> content,
                  w\<lparr>files := (if apply_fixes content \<noteq> content
                                then (files w)(filepath \<mapsto> apply_fixes content) else files w),
                    writes := writes w @ (if apply_fixes content \<noteq> content
                                          then [(filepath, apply_fixes content)] else []),
                    console := console w @ [Fixing (last filepath),
                                 if apply_fixes content \<noteq> content then Fixed (last filepath)
                                 else No_changes (last filepath)]\<rparr>)"
  using assms
  by (simp add: fix_migration_file_def print_def write_file_def apply_fixes_def Let_def)

lemma main_loop_result:
  assumes "distinct names"
  shows "\<exists>w'. main_loop names k w = Inr (k + length (filter (modified w) names), w')
           \<and> writes w' = writes w @ map (written w) (filter (modified w) names)
           \<and> console w' = console w @ concat (map (file_messages w) names)
           \<and> (\<forall>p. p \<notin> (\<lambda>n. migrations_dir @ [n]) ` set names \<longrightarrow> files w' p = files w p)"
  using assms
proof (induction names arbitrary: k w)
  case Nil
  then show ?case by simp
next
  case (Cons name names)
  let ?p = "migrations_dir @ [name]"
  define w1 k1 where "w1 = (case files w ?p of
        None \<Rightarrow> print (File_not_found name) w
      | Some content \<Rightarrow> snd (projr (fix_migration_file ?p w)))"
    and "k1 = (if modified w name then k + 1 else k)"
  have step: "main_loop (name # names) k w = main_loop names k1 w1"
  proof (cases "files w ?p")
    case None
    then show ?thesis by (simp add: w1_def k1_def modified_def Let_def)
  next
    case (Some content)
    then show ?thesis
      by (simp add: w1_def k1_def modified_def fix_migration_file_result Let_def)
  qed
  have w1_writes: "writes w1 = writes w @ (if modified w name then [written w name] else [])"
    and w1_console: "console w1 = console w @ file_messages w name"
    and w1_files: "\<And>p. p \<noteq> ?p \<Longrightarrow> files w1 p = files w p"
    by (auto simp: w1_def modified_def written_def file_messages_def print_def
        fix_migration_file_result split: option.splits)
  have same: "\<And>n. n \<in> set names \<Longrightarrow> files w1 (migrations_dir @ [n]) = files w (migrations_dir @ [n])"
    using Cons.prems by (intro w1_files) auto
  have m: "filter (modified w1) names = filter (modified w) names"
    by (rule filter_cong) (simp_all add: modified_def same)
  have wr: "map (written w1) (filter (modified w) names) = map (written w) (filter (modified w) names)"
    by (rule map_cong) (simp_all add: written_def same)
  have fm: "map (file_messages w1) names = map (file_messages w) names"
    by (rule map_cong) (simp_all add: file_messages_def same)
  from Cons.prems have "distinct names" by simp
  from Cons.IH [OF this, of k1 w1] obtain w' where
    r: "main_loop names k1 w1 = Inr (k1 + length (filter (modified w1) names), w')"
    and w: "writes w' = writes w1 @ map (written w1) (filter (modified w1) names)"
    and c: "console w' = console w1 @ concat (map (file_messages w1) names)"
    and f: "\<forall>p. p \<notin> (\<lambda>n. migrations_dir @ [n]) ` set names \<longrightarrow> files w' p = files w1 p"
    by blast
  have "main_loop (name # names) k w
          = Inr (k + length (filter (modified w) (name # names)), w')"
    using step r m by (simp add: k1_def)
  moreover have "writes w' = writes w @ map (written w) (filter (modified w) (name # names))"
    using w m wr w1_writes by simp
  moreover have "console w' = console w @ concat (map (file_messages w) (name # names))"
    using c fm w1_console by simp
  moreover have "\<forall>p. p \<notin> (\<lambda>n. migrations_dir @ [n]) ` set (name # names) \<longrightarrow> files w' p = files w p"
    using f w1_files by auto
  ultimately show ?case by blast
qed

lemma distinct_migrations_to_fix: "distinct migrations_to_fix"
  by (simp add: migrations_to_fix_def)

subsection \<open>Claims about the driver\<close>

text \<open>
  Claim C8: for every file that is there, with the text \<open>content\<close>, the driver returns
  normally; its result is \<^verbatim>\<open>True\<close>, and it prints "fixed", exactly when the index fixer,
  then the policy fixer, then the trigger fixer turn \<open>content\<close> into another text; then it
  writes that text to the file, once, and otherwise it writes nothing and the files are
  as they were.
\<close>

theorem file_written_iff_changed:
  assumes "files w filepath = Some content"
  shows "\<exists>w'. fix_migration_file filepath w
                 = Inr (fix_create_trigger (fix_create_policy (fix_create_index content)) \<noteq> content, w')
           \<and> writes w' = writes w @
                 (if fix_create_trigger (fix_create_policy (fix_create_index content)) \<noteq> content
                  then [(filepath, fix_create_trigger (fix_create_policy (fix_create_index content)))]
                  else [])
           \<and> files w' =
                 (if fix_create_trigger (fix_create_policy (fix_create_index content)) \<noteq> content
                  then (files w)(filepath \<mapsto>
                         fix_create_trigger (fix_create_policy (fix_create_index content)))
                  else files w)
           \<and> console w' = console w @
                 [Fixing (last filepath),
                  if fix_create_trigger (fix_create_policy (fix_create_index content)) \<noteq> content
                  then Fixed (last filepath) else No_changes (last filepath)]"
  using fix_migration_file_result [OF assms]
  by (simp add: apply_fixes_def)

theorem file_written_iff_changed_witness:
  "(case fix_migration_file [''supabase'', ''migrations'', ''00004_rate_limiting.sql'']
           \<lparr>files = [[''supabase'', ''migrations'', ''00004_rate_limiting.sql'']
                       \<mapsto> ''CREATE INDEX i ON t(c);''],
            writes = [], console = []\<rparr> of
      Inl e \<Rightarrow> False
    | Inr (fixed, w') \<Rightarrow>
        fixed
        \<and> writes w' = [([''supabase'', ''migrations'', ''00004_rate_limiting.sql''],
                         ''CREATE INDEX IF NOT EXISTS i ON t(c);'')]
        \<and> console w' = [Fixing ''00004_rate_limiting.sql'', Fixed ''00004_rate_limiting.sql''])"
proof -
  let ?p = "[''supabase'', ''migrations'', ''00004_rate_limiting.sql'']"
  let ?w = "\<lparr>files = [?p \<mapsto> ''CREATE INDEX i ON t(c);''], writes = [], console = []\<rparr>"
  have h: "files ?w ?p = Some ''CREATE INDEX i ON t(c);''" by simp
  have i: "fix_create_index ''CREATE INDEX i ON t(c);'' = ''CREATE INDEX IF NOT EXISTS i ON t(c);''"
    by (simp add: index_match_def is_word_def)
  have p: "fix_create_policy ''CREATE INDEX IF NOT EXISTS i ON t(c);''
             = ''CREATE INDEX IF NOT EXISTS i ON t(c);''"
    by (simp add: fix_create_policy_scan guard_for_def pattern_defs)
  have t: "fix_create_trigger ''CREATE INDEX IF NOT EXISTS i ON t(c);''
             = ''CREATE INDEX IF NOT EXISTS i ON t(c);''"
    by (simp add: fix_create_trigger_scan guard_for_def pattern_defs)
  from file_written_iff_changed [OF h] show ?thesis
    unfolding i p t by auto
qed

text \<open>
  Claim C9: every run of the driver over the fixed list returns normally. For each name
  in the order of the list it prints, and does, what the file at the start calls for: a
  file that is not there is reported not found and nothing else is done for it; a file
  that is there is fixed, and written when the fixers change it. The count printed at
  the end is the number of files the fixers change, which is the number of writes of
  the run.
\<close>

theorem main_skips_missing_and_counts:
  "\<exists>w'. main w = Inr w'
     \<and> console w' = console w @ concat (map (file_messages w) migrations_to_fix)
         @ [Fixed_count (length (filter (modified w) migrations_to_fix)), All_idempotent]
     \<and> writes w' = writes w @ map (written w) (filter (modified w) migrations_to_fix)
     \<and> length (writes w') = length (writes w) + length (filter (modified w) migrations_to_fix)"
proof -
  from main_loop_result [OF distinct_migrations_to_fix, of 0 w] obtain w1 where
    r: "main_loop migrations_to_fix 0 w
          = Inr (0 + length (filter (modified w) migrations_to_fix), w1)"
    and wr: "writes w1 = writes w @ map (written w) (filter (modified w) migrations_to_fix)"
    and c: "console w1 = console w @ concat (map (file_messages w) migrations_to_fix)"
    by blast
  let ?n = "length (filter (modified w) migrations_to_fix)"
  let ?w' = "print All_idempotent (print (Fixed_count ?n) w1)"
  have "main w = Inr ?w'" using r by (simp add: main_def)
  moreover have "console ?w' = console w @ concat (map (file_messages w) migrations_to_fix)
         @ [Fixed_count ?n, All_idempotent]"
    using c by (simp add: print_def)
  moreover have "writes ?w' = writes w @ map (written w) (filter (modified w) migrations_to_fix)"
    using wr by (simp add: print_def)
  moreover have "length (writes ?w') = length (writes w) + ?n"
    using wr by (simp add: print_def)
  ultimately show ?thesis by blast
qed

theorem main_skips_missing_and_counts_witness:
  "(case main \<lparr>files = [[''supabase'', ''migrations'', ''00004_rate_limiting.sql'']
                          \<mapsto> ''CREATE INDEX i ON t(c);'',
                        [''supabase'', ''migrations'', ''00007_engagement_agent.sql'']
                          \<mapsto> ''SELECT 1;''],
               writes = [], console = []\<rparr> of
      Inl e \<Rightarrow> False
    | Inr w' \<Rightarrow>
        console w' =
          [File_not_found ''00003_brand_brain_schema.sql'',
           Fixing ''00004_rate_limiting.sql'', Fixed ''00004_rate_limiting.sql'',
           File_not_found ''00006_post_generator_schema.sql'',
           Fixing ''00007_engagement_agent.sql'', No_changes ''00007_engagement_agent.sql'',
           File_not_found ''00008_engagement_agent_schema.sql'',
           File_not_found ''00009_payment_subscription_schema.sql'',
           File_not_found ''00010_social_scheduler_schema.sql'',
           File_not_found ''00011_free_tier_initialization.sql'',
           Fixed_count 1, All_idempotent]
        \<and> writes w' = [([''supabase'', ''migrations'', ''00004_rate_limiting.sql''],
                         ''CREATE INDEX IF NOT EXISTS i ON t(c);'')])"
proof -
  let ?w = "\<lparr>files = [[''supabase'', ''migrations'', ''00004_rate_limiting.sql'']
                          \<mapsto> ''CREATE INDEX i ON t(c);'',
                        [''supabase'', ''migrations'', ''00007_engagement_agent.sql'']
                          \<mapsto> ''SELECT 1;''],
               writes = [], console = []\<rparr>"
  have a: "apply_fixes ''CREATE INDEX i ON t(c);'' = ''CREATE INDEX IF NOT EXISTS i ON t(c);''"
    by (simp add: apply_fixes_def fix_create_policy_scan fix_create_trigger_scan guard_for_def
        index_match_def pattern_defs)
  have b: "apply_fixes ''SELECT 1;'' = ''SELECT 1;''"
    by (simp add: apply_fixes_def fix_create_policy_scan fix_create_trigger_scan guard_for_def
        index_match_def pattern_defs)
  have m: "filter (modified ?w) migrations_to_fix = [''00004_rate_limiting.sql'']"
    by (simp add: modified_def migrations_to_fix_def migrations_dir_def a b)
  have c: "concat (map (file_messages ?w) migrations_to_fix) =
          [File_not_found ''00003_brand_brain_schema.sql'',
           Fixing ''00004_rate_limiting.sql'', Fixed ''00004_rate_limiting.sql'',
           File_not_found ''00006_post_generator_schema.sql'',
           Fixing ''00007_engagement_agent.sql'', No_changes ''00007_engagement_agent.sql'',
           File_not_found ''00008_engagement_agent_schema.sql'',
           File_not_found ''00009_payment_subscription_schema.sql'',
           File_not_found ''00010_social_scheduler_schema.sql'',
           File_not_found ''00011_free_tier_initialization.sql'']"
    by (simp add: file_messages_def migrations_to_fix_def migrations_dir_def a b)
  have w: "written ?w ''00004_rate_limiting.sql''
             = ([''supabase'', ''migrations'', ''00004_rate_limiting.sql''],
                ''CREATE INDEX IF NOT EXISTS i ON t(c);'')"
    by (simp add: written_def migrations_dir_def a)
  from main_skips_missing_and_counts [of ?w] show ?thesis
    unfolding m c by (auto simp: w)
qed

end
